theory Spec2Isabelle
  imports Main "HOL-Library.Word"
begin

section \<open>Bytes, typed arrays and text\<close>

text \<open>
  A \<^verbatim>\<open>Uint8Array\<close> is a list of 8-bit words. A JavaScript string is the list of its
  UTF-16 code units. \<^verbatim>\<open>maxCount\<close> and line numbers are natural numbers (the
  options document \<^verbatim>\<open>maxCount\<close> as a non-negative integer, 0 meaning unbounded).
\<close>

type_synonym byte = "8 word"
type_synonym jsstring = "nat list"

definition NEWLINE :: byte where
  "NEWLINE = 0x0a"

text \<open>The code unit of \<^verbatim>\<open>'\n'\<close>.\<close>

definition LF :: nat where
  "LF = 10"

text \<open>An ASCII literal as a JavaScript string, and as the bytes of a buffer.\<close>

definition js :: "string \<Rightarrow> jsstring" where
  "js s = map of_char s"

definition bytes :: "string \<Rightarrow> byte list" where
  "bytes s = map (\<lambda>c. of_nat (of_char c)) s"

text \<open>
  Reading a typed array at an index: \<^verbatim>\<open>chunk[i]\<close> is \<^verbatim>\<open>undefined\<close> out of range,
  which is different from every byte.
\<close>

definition byteAt :: "byte list \<Rightarrow> nat \<Rightarrow> byte option" where
  "byteAt chunk i = (if i < length chunk then Some (chunk ! i) else None)"

text \<open>\<^verbatim>\<open>buffer.slice(start, end)\<close> for non-negative arguments.\<close>

definition sliceOf :: "'a list \<Rightarrow> nat \<Rightarrow> nat \<Rightarrow> 'a list" where
  "sliceOf xs start end = take (end - start) (drop start xs)"

text \<open>\<^verbatim>\<open>buffer.indexOf(v, from)\<close>: the first index at or after \<open>from\<close> holding \<open>v\<close>;
  \<open>None\<close> stands for \<^verbatim>\<open>-1\<close>.\<close>

function indexOf :: "byte list \<Rightarrow> byte \<Rightarrow> nat \<Rightarrow> nat option" where
  "indexOf xs v i =
     (if i < length xs then (if xs ! i = v then Some i else indexOf xs v (i + 1)) else None)"
  by pat_completeness auto
termination
  by (relation "measure (\<lambda>(xs, v, i). length xs - i)") auto

declare indexOf.simps [simp del]

lemma indexOf_ge: "indexOf xs v i = Some n \<Longrightarrow> i \<le> n"
proof (induction xs v i rule: indexOf.induct)
  case (1 xs v i)
  show ?case
  proof (cases "i < length xs \<and> xs ! i \<noteq> v")
    case True
    then have "indexOf xs v (i + 1) = Some n"
      using "1.prems" by (simp add: indexOf.simps [of xs v i])
    then have "i + 1 \<le> n" using "1.IH" True by simp
    then show ?thesis by simp
  next
    case False
    then show ?thesis
      using "1.prems" by (auto simp: indexOf.simps [of xs v i] split: if_splits)
  qed
qed

text \<open>\<^verbatim>\<open>buffer.lastIndexOf(v)\<close>: the last index holding \<open>v\<close>.\<close>

primrec lastIndexOfBelow :: "byte list \<Rightarrow> byte \<Rightarrow> nat \<Rightarrow> nat option" where
  "lastIndexOfBelow xs v 0 = None"
| "lastIndexOfBelow xs v (Suc n) = (if xs ! n = v then Some n else lastIndexOfBelow xs v n)"

definition lastIndexOf :: "byte list \<Rightarrow> byte \<Rightarrow> nat option" where
  "lastIndexOf xs v = lastIndexOfBelow xs v (length xs)"

subsection \<open>The platform's text codec\<close>

text \<open>
  \<^verbatim>\<open>new TextDecoder('utf-8', { fatal: false })\<close> is the UTF-8 decoder of the WHATWG
  Encoding Standard: a malformed sequence yields U+FFFD and the offending byte is
  processed again, a leading byte order mark is dropped, and a code point above the
  basic plane becomes a surrogate pair. The arguments of \<open>utf8_run\<close> are the decoder's
  code point, bytes seen, bytes needed, lower boundary and upper boundary.
\<close>

fun utf8_run :: "nat \<Rightarrow> nat \<Rightarrow> nat \<Rightarrow> nat \<Rightarrow> nat \<Rightarrow> byte list \<Rightarrow> nat list" where
  "utf8_run cp seen needed lo hi [] = (if needed \<noteq> 0 then [0xFFFD] else [])"
| "utf8_run cp seen needed lo hi (b # bs) =
     (if needed = 0 then
        (if unat b \<le> 0x7F then unat b # utf8_run 0 0 0 0x80 0xBF bs
         else if 0xC2 \<le> unat b \<and> unat b \<le> 0xDF then
           utf8_run (unat b mod 32) 0 1 0x80 0xBF bs
         else if 0xE0 \<le> unat b \<and> unat b \<le> 0xEF then
           utf8_run (unat b mod 16) 0 2
             (if unat b = 0xE0 then 0xA0 else 0x80) (if unat b = 0xED then 0x9F else 0xBF) bs
         else if 0xF0 \<le> unat b \<and> unat b \<le> 0xF4 then
           utf8_run (unat b mod 8) 0 3
             (if unat b = 0xF0 then 0x90 else 0x80) (if unat b = 0xF4 then 0x8F else 0xBF) bs
         else 0xFFFD # utf8_run 0 0 0 0x80 0xBF bs)
      else if unat b < lo \<or> hi < unat b then 0xFFFD # utf8_run 0 0 0 0x80 0xBF (b # bs)
      else if seen + 1 \<noteq> needed then
        utf8_run (cp * 64 + unat b mod 64) (seen + 1) needed 0x80 0xBF bs
      else (cp * 64 + unat b mod 64) # utf8_run 0 0 0 0x80 0xBF bs)"

fun strip_bom :: "nat list \<Rightarrow> nat list" where
  "strip_bom [] = []"
| "strip_bom (c # cs) = (if c = 0xFEFF then cs else c # cs)"

definition utf16_units :: "nat \<Rightarrow> nat list" where
  "utf16_units cp =
     (if cp < 0x10000 then [cp]
      else [0xD800 + (cp - 0x10000) div 1024, 0xDC00 + (cp - 0x10000) mod 1024])"

definition decode :: "byte list \<Rightarrow> jsstring" where
  "decode bs = concat (map utf16_units (strip_bom (utf8_run 0 0 0 0x80 0xBF bs)))"

text \<open>
  \<^verbatim>\<open>new TextEncoder().encode(s)\<close>: the scalar values of the string (a lone surrogate
  becomes U+FFFD), each written in UTF-8.
\<close>

fun utf16_scalars :: "nat list \<Rightarrow> nat list" where
  "utf16_scalars [] = []"
| "utf16_scalars [u] = (if 0xD800 \<le> u \<and> u \<le> 0xDFFF then [0xFFFD] else [u])"
| "utf16_scalars (u # v # vs) =
     (if 0xD800 \<le> u \<and> u \<le> 0xDBFF then
        (if 0xDC00 \<le> v \<and> v \<le> 0xDFFF
         then (0x10000 + (u - 0xD800) * 1024 + (v - 0xDC00)) # utf16_scalars vs
         else 0xFFFD # utf16_scalars (v # vs))
      else if 0xDC00 \<le> u \<and> u \<le> 0xDFFF then 0xFFFD # utf16_scalars (v # vs)
      else u # utf16_scalars (v # vs))"

definition utf8_bytes :: "nat \<Rightarrow> nat list" where
  "utf8_bytes cp =
     (if cp < 0x80 then [cp]
      else if cp < 0x800 then [0xC0 + cp div 64, 0x80 + cp mod 64]
      else if cp < 0x10000 then
        [0xE0 + cp div 4096, 0x80 + (cp div 64) mod 64, 0x80 + cp mod 64]
      else [0xF0 + cp div 262144, 0x80 + (cp div 4096) mod 64,
            0x80 + (cp div 64) mod 64, 0x80 + cp mod 64])"

definition encode :: "jsstring \<Rightarrow> byte list" where
  "encode s = map of_nat (concat (map utf8_bytes (utf16_scalars s)))"

section \<open>Options and results\<close>

text \<open>
  The \<^verbatim>\<open>RegExp\<close> of the options is taken as its matcher: \<open>m line i\<close> is the length of
  the match of the pattern that starts exactly at index \<open>i\<close> of \<open>line\<close>, if there is
  one. The scanner resets \<^verbatim>\<open>lastIndex\<close> before every use, so the expression carries
  the global flag; \<open>regexExec\<close> is then \<^verbatim>\<open>exec\<close> started at \<^verbatim>\<open>lastIndex\<close>: it fails
  beyond the end of the input and otherwise tries each index in turn.
\<close>

type_synonym matcher = "jsstring \<Rightarrow> nat \<Rightarrow> nat option"

function regexExec :: "matcher \<Rightarrow> jsstring \<Rightarrow> nat \<Rightarrow> (nat \<times> nat) option" where
  "regexExec m line i =
     (if length line < i then None
      else (case m line i of Some len \<Rightarrow> Some (i, len) | None \<Rightarrow> regexExec m line (i + 1)))"
  by pat_completeness auto
termination
  by (relation "measure (\<lambda>(m, line, i). Suc (length line) - i)") auto

declare regexExec.simps [simp del]

text \<open>\<^verbatim>\<open>regex.lastIndex = 0; regex.test(line)\<close>\<close>

definition regexTest :: "matcher \<Rightarrow> jsstring \<Rightarrow> bool" where
  "regexTest m line = (regexExec m line 0 \<noteq> None)"

record FastGrepOptions =
  pattern :: jsstring
  regex :: matcher
  isLiteral :: bool
  ignoreCase :: bool
  invertMatch :: bool
  wholeWord :: bool
  lineRegexp :: bool
  maxCount :: nat
  onlyMatching :: bool

text \<open>The optional field \<^verbatim>\<open>matches\<close> is \<open>None\<close> when the object does not have it.\<close>

record GrepLineResult =
  lineNumber :: nat
  content :: jsstring
  matches :: "jsstring list option"

section \<open>Literal scanner\<close>

definition toLowerAscii :: "byte \<Rightarrow> byte" where
  "toLowerAscii b = (if 65 \<le> b \<and> b \<le> 90 then b + 32 else b)"

text \<open>
  The inner loop of \<^verbatim>\<open>findPatternPositions\<close>, from index \<open>j\<close>: \<open>False\<close> is
  \<^verbatim>\<open>continue outer\<close>, \<open>True\<close> is falling through to \<^verbatim>\<open>positions.push(i)\<close>.
\<close>

function fppInner :: "byte list \<Rightarrow> byte list \<Rightarrow> nat \<Rightarrow> nat \<Rightarrow> bool" where
  "fppInner chunk pat i j =
     (if j < length pat then
        (if byteAt chunk (i + j) \<noteq> Some (pat ! j) then False else fppInner chunk pat i (j + 1))
      else True)"
  by pat_completeness auto
termination
  by (relation "measure (\<lambda>(chunk, pat, i, j). length pat - j)") auto

declare fppInner.simps [simp del]

function fppOuter :: "byte list \<Rightarrow> byte list \<Rightarrow> nat \<Rightarrow> nat \<Rightarrow> nat list \<Rightarrow> nat list" where
  "fppOuter chunk pat searchEnd i positions =
     (if i < searchEnd then
        (if byteAt chunk i \<noteq> Some (pat ! 0) then fppOuter chunk pat searchEnd (i + 1) positions
         else if fppInner chunk pat i 1 then fppOuter chunk pat searchEnd (i + 1) (positions @ [i])
         else fppOuter chunk pat searchEnd (i + 1) positions)
      else positions)"
  by pat_completeness auto
termination
  by (relation "measure (\<lambda>(chunk, pat, searchEnd, i, positions). searchEnd - i)") auto

declare fppOuter.simps [simp del]

definition findPatternPositions :: "byte list \<Rightarrow> byte list \<Rightarrow> nat list" where
  "findPatternPositions chunk pat =
     (if length pat = 0 \<or> length chunk < length pat then []
      else fppOuter chunk pat (length chunk - length pat + 1) 0 [])"

text \<open>The case-insensitive scan folds each byte of the chunk as it reads it.\<close>

function fppInnerIC :: "byte list \<Rightarrow> byte list \<Rightarrow> nat \<Rightarrow> nat \<Rightarrow> bool" where
  "fppInnerIC chunk lowerPattern i j =
     (if j < length lowerPattern then
        (if map_option toLowerAscii (byteAt chunk (i + j)) \<noteq> Some (lowerPattern ! j) then False
         else fppInnerIC chunk lowerPattern i (j + 1))
      else True)"
  by pat_completeness auto
termination
  by (relation "measure (\<lambda>(chunk, lowerPattern, i, j). length lowerPattern - j)") auto

declare fppInnerIC.simps [simp del]

function fppOuterIC :: "byte list \<Rightarrow> byte list \<Rightarrow> nat \<Rightarrow> nat \<Rightarrow> nat list \<Rightarrow> nat list" where
  "fppOuterIC chunk lowerPattern searchEnd i positions =
     (if i < searchEnd then
        (if map_option toLowerAscii (byteAt chunk i) \<noteq> Some (lowerPattern ! 0)
         then fppOuterIC chunk lowerPattern searchEnd (i + 1) positions
         else if fppInnerIC chunk lowerPattern i 1
         then fppOuterIC chunk lowerPattern searchEnd (i + 1) (positions @ [i])
         else fppOuterIC chunk lowerPattern searchEnd (i + 1) positions)
      else positions)"
  by pat_completeness auto
termination
  by (relation "measure (\<lambda>(chunk, lowerPattern, searchEnd, i, positions). searchEnd - i)") auto

declare fppOuterIC.simps [simp del]

definition findPatternPositionsIgnoreCase :: "byte list \<Rightarrow> byte list \<Rightarrow> nat list" where
  "findPatternPositionsIgnoreCase chunk pat =
     (if length pat = 0 \<or> length chunk < length pat then []
      else fppOuterIC chunk (map toLowerAscii pat) (length chunk - length pat + 1) 0 [])"

section \<open>Boundary utilities\<close>

definition isWordByte :: "byte \<Rightarrow> bool" where
  "isWordByte b \<longleftrightarrow>
     (48 \<le> b \<and> b \<le> 57) \<or> (65 \<le> b \<and> b \<le> 90) \<or> (97 \<le> b \<and> b \<le> 122) \<or> b = 95"

definition isWordBoundary :: "byte list \<Rightarrow> nat \<Rightarrow> nat \<Rightarrow> bool" where
  "isWordBoundary chunk pos patternLen =
     (let beforeOk = (pos = 0 \<or> \<not> (case byteAt chunk (pos - 1) of Some b \<Rightarrow> isWordByte b | None \<Rightarrow> False));
          afterOk = (pos + patternLen \<ge> length chunk \<or>
                     \<not> (case byteAt chunk (pos + patternLen) of Some b \<Rightarrow> isWordByte b | None \<Rightarrow> False))
      in beforeOk \<and> afterOk)"

text \<open>The backward and the forward scan of \<^verbatim>\<open>extractLineAt\<close>.\<close>

function lineStartFrom :: "byte list \<Rightarrow> nat \<Rightarrow> nat" where
  "lineStartFrom chunk start =
     (if start > 0 \<and> byteAt chunk (start - 1) \<noteq> Some NEWLINE
      then lineStartFrom chunk (start - 1) else start)"
  by pat_completeness auto
termination
  by (relation "measure (\<lambda>(chunk, start). start)") auto

declare lineStartFrom.simps [simp del]

function lineEndFrom :: "byte list \<Rightarrow> nat \<Rightarrow> nat" where
  "lineEndFrom chunk end =
     (if end < length chunk \<and> byteAt chunk end \<noteq> Some NEWLINE
      then lineEndFrom chunk (end + 1) else end)"
  by pat_completeness auto
termination
  by (relation "measure (\<lambda>(chunk, end). length chunk - end)") auto

declare lineEndFrom.simps [simp del]

record Line =
  line_start :: nat
  line_end :: nat
  line_content :: jsstring

definition extractLineAt :: "byte list \<Rightarrow> nat \<Rightarrow> Line" where
  "extractLineAt chunk pos =
     (let start = lineStartFrom chunk pos;
          end = lineEndFrom chunk pos
      in \<lparr>line_start = start, line_end = end, line_content = decode (sliceOf chunk start end)\<rparr>)"

function countNewlinesFrom :: "byte list \<Rightarrow> nat \<Rightarrow> nat \<Rightarrow> nat \<Rightarrow> nat" where
  "countNewlinesFrom chunk i end count =
     (if i < end then
        countNewlinesFrom chunk (i + 1) end (if byteAt chunk i = Some NEWLINE then count + 1 else count)
      else count)"
  by pat_completeness auto
termination
  by (relation "measure (\<lambda>(chunk, i, end, count). end - i)") auto

declare countNewlinesFrom.simps [simp del]

definition countNewlines :: "byte list \<Rightarrow> nat \<Rightarrow> nat \<Rightarrow> nat" where
  "countNewlines chunk start end = countNewlinesFrom chunk start end 0"

section \<open>Match aggregator, literal path\<close>

text \<open>
  The entries of the \<^verbatim>\<open>lineMatches\<close> map. A JavaScript \<^verbatim>\<open>Map\<close> iterates in insertion
  order, so the map is the list of its entries in that order; \<open>recordMatch\<close> is
  \<^verbatim>\<open>if (!lineMatches.has(n)) lineMatches.set(n, {...}); lineMatches.get(n).positions.push(off)\<close>.
\<close>

record LineMatch =
  lm_lineNumber :: nat
  lm_content :: jsstring
  lm_positions :: "nat list"

type_synonym lineMatches = "(nat \<times> LineMatch) list"

definition recordMatch :: "lineMatches \<Rightarrow> nat \<Rightarrow> jsstring \<Rightarrow> nat \<Rightarrow> lineMatches" where
  "recordMatch lms n c off =
     (let lms' = (if map_of lms n = None
                  then lms @ [(n, \<lparr>lm_lineNumber = n, lm_content = c, lm_positions = []\<rparr>)]
                  else lms)
      in map (\<lambda>(k, e). if k = n then (k, e\<lparr>lm_positions := lm_positions e @ [off]\<rparr>) else (k, e)) lms')"

text \<open>The \<^verbatim>\<open>while (currentLineStart < pos)\<close> loop; it returns the new line start and number.\<close>

function fastForward :: "byte list \<Rightarrow> nat \<Rightarrow> nat \<Rightarrow> nat \<Rightarrow> nat \<times> nat" where
  "fastForward buffer pos currentLineStart currentLineNum =
     (if currentLineStart < pos then
        (case indexOf buffer NEWLINE currentLineStart of
           None \<Rightarrow> (currentLineStart, currentLineNum)
         | Some nlPos \<Rightarrow>
             if nlPos \<ge> pos then (currentLineStart, currentLineNum)
             else fastForward buffer pos (nlPos + 1) (currentLineNum + 1))
      else (currentLineStart, currentLineNum))"
  by pat_completeness auto
termination
proof (relation "measure (\<lambda>(buffer, pos, currentLineStart, currentLineNum). pos - currentLineStart)")
  fix buffer :: "byte list" and pos currentLineStart currentLineNum x2 :: nat
  assume "currentLineStart < pos" and "indexOf buffer NEWLINE currentLineStart = Some x2"
    and "\<not> pos \<le> x2"
  then show "((buffer, pos, x2 + 1, currentLineNum + 1), buffer, pos, currentLineStart, currentLineNum)
             \<in> measure (\<lambda>(buffer, pos, currentLineStart, currentLineNum). pos - currentLineStart)"
    using indexOf_ge [of buffer NEWLINE currentLineStart x2] by simp
qed simp

declare fastForward.simps [simp del]

text \<open>
  The \<^verbatim>\<open>for (const pos of positions)\<close> loop of \<^verbatim>\<open>grepBufferLiteral\<close>, on the positions
  still to visit; it returns the map when the loop ends or breaks.
\<close>

fun literalLoop ::
  "byte list \<Rightarrow> FastGrepOptions \<Rightarrow> nat \<Rightarrow> nat list \<Rightarrow> nat \<Rightarrow> nat \<Rightarrow> lineMatches \<Rightarrow> lineMatches" where
  "literalLoop buffer options patternLen [] currentLineStart currentLineNum lms = lms"
| "literalLoop buffer options patternLen (pos # rest) currentLineStart currentLineNum lms =
     (case fastForward buffer pos currentLineStart currentLineNum of
        (currentLineStart', currentLineNum') \<Rightarrow>
          if wholeWord options \<and> \<not> isWordBoundary buffer pos patternLen
          then literalLoop buffer options patternLen rest currentLineStart' currentLineNum' lms
          else
            let line = extractLineAt buffer pos in
            if lineRegexp options \<and> line_content line \<noteq> pattern options
            then literalLoop buffer options patternLen rest currentLineStart' currentLineNum' lms
            else
              let lms' = recordMatch lms currentLineNum' (line_content line) (pos - line_start line) in
              if maxCount options > 0 \<and> length lms' \<ge> maxCount options then lms'
              else literalLoop buffer options patternLen rest currentLineStart' currentLineNum' lms')"

text \<open>The result objects of the literal path are built without a \<^verbatim>\<open>matches\<close> field.\<close>

definition materialize :: "FastGrepOptions \<Rightarrow> lineMatches \<Rightarrow> GrepLineResult list" where
  "materialize options lms =
     map (\<lambda>(k, match).
            if onlyMatching options
            then \<lparr>lineNumber = lm_lineNumber match, content = pattern options, matches = None\<rparr>
            else \<lparr>lineNumber = lm_lineNumber match, content = lm_content match, matches = None\<rparr>)
         lms"

subsection \<open>Invert mode\<close>

text \<open>The end of the line that starts at \<open>lineStart\<close>:
  \<^verbatim>\<open>lineEnd === -1 ? buffer.length : lineEnd\<close>.\<close>

definition actualEndOf :: "byte list \<Rightarrow> nat \<Rightarrow> nat" where
  "actualEndOf buffer lineStart =
     (case indexOf buffer NEWLINE lineStart of None \<Rightarrow> length buffer | Some lineEnd \<Rightarrow> lineEnd)"

text \<open>The inner loop of the first pass; it returns \<^verbatim>\<open>posIdx\<close> and the set.\<close>

function invertInner ::
  "nat list \<Rightarrow> nat \<Rightarrow> nat \<Rightarrow> nat \<Rightarrow> nat \<Rightarrow> nat set \<Rightarrow> nat \<times> nat set" where
  "invertInner matchPositions lineStart actualEnd lineNum posIdx matchSet =
     (if posIdx < length matchPositions \<and> matchPositions ! posIdx < actualEnd then
        invertInner matchPositions lineStart actualEnd lineNum (posIdx + 1)
          (if matchPositions ! posIdx \<ge> lineStart then insert lineNum matchSet else matchSet)
      else (posIdx, matchSet))"
  by pat_completeness auto
termination
  by (relation "measure (\<lambda>(matchPositions, lineStart, actualEnd, lineNum, posIdx, matchSet).
                           length matchPositions - posIdx)") auto

declare invertInner.simps [simp del]

lemma actualEndOf_ge: "lineStart < length buffer \<Longrightarrow> lineStart \<le> actualEndOf buffer lineStart"
  by (auto simp: actualEndOf_def indexOf_ge split: option.splits)

text \<open>The first pass of \<^verbatim>\<open>grepBufferInvert\<close>: the line numbers that have a match.\<close>

function invertMark :: "byte list \<Rightarrow> nat list \<Rightarrow> nat \<Rightarrow> nat \<Rightarrow> nat \<Rightarrow> nat set \<Rightarrow> nat set" where
  "invertMark buffer matchPositions lineStart lineNum posIdx matchSet =
     (if lineStart < length buffer \<and> posIdx < length matchPositions then
        (let actualEnd = actualEndOf buffer lineStart in
         case invertInner matchPositions lineStart actualEnd lineNum posIdx matchSet of
           (posIdx', matchSet') \<Rightarrow>
             invertMark buffer matchPositions (actualEnd + 1) (lineNum + 1) posIdx' matchSet')
      else matchSet)"
  by pat_completeness auto
termination
proof (relation "measure (\<lambda>(buffer, matchPositions, lineStart, lineNum, posIdx, matchSet).
                            length buffer - lineStart)")
  fix buffer :: "byte list" and matchPositions :: "nat list" and lineStart lineNum posIdx :: nat
    and matchSet :: "nat set" and x :: nat and xa :: "nat \<times> nat set" and x1 :: nat and x2 :: "nat set"
  assume "lineStart < length buffer \<and> posIdx < length matchPositions"
    and "x = actualEndOf buffer lineStart"
  then have "length buffer - (x + 1) < length buffer - lineStart"
    using actualEndOf_ge [of lineStart buffer] by auto
  then show "((buffer, matchPositions, x + 1, lineNum + 1, x1, x2),
              buffer, matchPositions, lineStart, lineNum, posIdx, matchSet)
             \<in> measure (\<lambda>(buffer, matchPositions, lineStart, lineNum, posIdx, matchSet).
                           length buffer - lineStart)"
    by simp
qed simp

declare invertMark.simps [simp del]

text \<open>The second pass: the lines whose number is not in the set.\<close>

function invertCollect ::
  "byte list \<Rightarrow> FastGrepOptions \<Rightarrow> nat set \<Rightarrow> nat \<Rightarrow> nat \<Rightarrow> nat \<Rightarrow> GrepLineResult list
   \<Rightarrow> GrepLineResult list" where
  "invertCollect buffer options matchSet lineStart lineNum matchCount results =
     (if lineStart < length buffer then
        (let actualEnd = actualEndOf buffer lineStart in
         if lineNum \<notin> matchSet then
           (let results' = results @ [\<lparr>lineNumber = lineNum,
                                       content = decode (sliceOf buffer lineStart actualEnd),
                                       matches = None\<rparr>];
                matchCount' = matchCount + 1
            in if maxCount options > 0 \<and> matchCount' \<ge> maxCount options then results'
               else invertCollect buffer options matchSet (actualEnd + 1) (lineNum + 1)
                      matchCount' results')
         else invertCollect buffer options matchSet (actualEnd + 1) (lineNum + 1) matchCount results)
      else results)"
  by pat_completeness auto
termination
proof (relation "measure (\<lambda>(buffer, options, matchSet, lineStart, lineNum, matchCount, results).
                            length buffer - lineStart)")
  fix buffer :: "byte list" and lineStart x :: nat
  assume "lineStart < length buffer" and "x = actualEndOf buffer lineStart"
  then have "length buffer - (x + 1) < length buffer - lineStart"
    using actualEndOf_ge [of lineStart buffer] by simp
  then show "\<And>options matchSet lineNum matchCount results xa xb.
      ((buffer, options :: FastGrepOptions, matchSet :: nat set, x + 1, lineNum + 1, xb :: nat,
        xa :: GrepLineResult list),
       buffer, options, matchSet, lineStart, lineNum :: nat, matchCount :: nat,
       results :: GrepLineResult list)
      \<in> measure (\<lambda>(buffer, options, matchSet, lineStart, lineNum, matchCount, results).
                    length buffer - lineStart)"
    by simp
  then show "\<And>options matchSet lineNum matchCount results.
      ((buffer, options :: FastGrepOptions, matchSet :: nat set, x + 1, lineNum + 1, matchCount :: nat,
        results :: GrepLineResult list),
       buffer, options, matchSet, lineStart, lineNum :: nat, matchCount, results)
      \<in> measure (\<lambda>(buffer, options, matchSet, lineStart, lineNum, matchCount, results).
                    length buffer - lineStart)"
    by simp
qed simp

declare invertCollect.simps [simp del]

definition grepBufferInvert ::
  "byte list \<Rightarrow> nat list \<Rightarrow> FastGrepOptions \<Rightarrow> GrepLineResult list" where
  "grepBufferInvert buffer matchPositions options =
     (let matchSet = invertMark buffer matchPositions 0 1 0 {}
      in invertCollect buffer options matchSet 0 1 0 [])"

subsection \<open>Entry point of the literal path\<close>

definition grepBufferLiteral :: "byte list \<Rightarrow> FastGrepOptions \<Rightarrow> GrepLineResult list" where
  "grepBufferLiteral buffer options =
     (let patternBytes = encode (pattern options);
          positions = (if ignoreCase options
                       then findPatternPositionsIgnoreCase buffer patternBytes
                       else findPatternPositions buffer patternBytes)
      in if invertMatch options then grepBufferInvert buffer positions options
         else materialize options
                (literalLoop buffer options (length patternBytes) positions 0 1 []))"

section \<open>Regex line matcher\<close>

text \<open>\<^verbatim>\<open>content.split('\n')\<close> and \<^verbatim>\<open>content.endsWith('\n')\<close>.\<close>

fun splitNewline :: "jsstring \<Rightarrow> jsstring list" where
  "splitNewline [] = [[]]"
| "splitNewline (c # cs) =
     (if c = LF then [] # splitNewline cs
      else (case splitNewline cs of [] \<Rightarrow> [[c]] | l # ls \<Rightarrow> (c # l) # ls))"

definition endsWithNewline :: "jsstring \<Rightarrow> bool" where
  "endsWithNewline s \<longleftrightarrow> s \<noteq> [] \<and> last s = LF"

lemma regexExec_bounds:
  "regexExec m line i = Some (index, len) \<Longrightarrow> i \<le> index \<and> index \<le> length line"
proof (induction m line i rule: regexExec.induct)
  case (1 m line i)
  show ?case
  proof (cases "length line < i")
    case True
    then show ?thesis using "1.prems" by (simp add: regexExec.simps [of m line i])
  next
    case False
    show ?thesis
    proof (cases "m line i")
      case None
      then have "regexExec m line (i + 1) = Some (index, len)"
        using "1.prems" False by (simp add: regexExec.simps [of m line i])
      then have "i + 1 \<le> index \<and> index \<le> length line" using "1.IH" False None by simp
      then show ?thesis by simp
    next
      case (Some l)
      then show ?thesis using "1.prems" False by (simp add: regexExec.simps [of m line i])
    qed
  qed
qed

text \<open>
  The only-matching loop: \<^verbatim>\<open>exec\<close> until it fails, one result per match,
  \<^verbatim>\<open>lastIndex\<close> moved by one past an empty match.
\<close>

function execLoop ::
  "matcher \<Rightarrow> jsstring \<Rightarrow> nat \<Rightarrow> nat \<Rightarrow> GrepLineResult list \<Rightarrow> GrepLineResult list" where
  "execLoop m line lineNo lastIndex results =
     (case regexExec m line lastIndex of
        None \<Rightarrow> results
      | Some (index, len) \<Rightarrow>
          (let match0 = sliceOf line index (index + len);
               results' = results @ [\<lparr>lineNumber = lineNo, content = match0, matches = None\<rparr>]
           in execLoop m line lineNo
                (if length match0 = 0 then index + len + 1 else index + len) results'))"
  by pat_completeness auto
termination
proof (relation "measure (\<lambda>(m, line, lineNo, lastIndex, results). Suc (length line) - lastIndex)")
  fix m :: matcher and line :: jsstring and lineNo lastIndex :: nat
    and results :: "GrepLineResult list" and x2 :: "nat \<times> nat" and x1 y :: nat
    and x :: jsstring and xa :: "GrepLineResult list"
  assume ex: "regexExec m line lastIndex = Some x2" and x2: "(x1, y) = x2"
    and x: "x = sliceOf line x1 (x1 + y)"
  have b: "lastIndex \<le> x1 \<and> x1 \<le> length line"
    using regexExec_bounds [of m line lastIndex x1 y] ex x2 by simp
  have "length x \<noteq> 0 \<Longrightarrow> 0 < y" using x by (cases y) (simp_all add: sliceOf_def)
  then have "lastIndex < (if length x = 0 then x1 + y + 1 else x1 + y)" using b by auto
  then show "((m, line, lineNo, if length x = 0 then x1 + y + 1 else x1 + y, xa),
              m, line, lineNo, lastIndex, results)
             \<in> measure (\<lambda>(m, line, lineNo, lastIndex, results). Suc (length line) - lastIndex)"
    using b by auto
qed simp

declare execLoop.simps [simp del]

text \<open>The \<^verbatim>\<open>for\<close> loop over the lines, on the lines from index \<open>i\<close> on.\<close>

fun regexLoop ::
  "FastGrepOptions \<Rightarrow> jsstring list \<Rightarrow> nat \<Rightarrow> nat \<Rightarrow> GrepLineResult list \<Rightarrow> GrepLineResult list" where
  "regexLoop options [] i matchCount results = results"
| "regexLoop options (line # rest) i matchCount results =
     (let hasMatch = regexTest (regex options) line in
      if hasMatch \<noteq> invertMatch options then
        (let results' = (if onlyMatching options \<and> \<not> invertMatch options
                         then execLoop (regex options) line (i + 1) 0 results
                         else results @ [\<lparr>lineNumber = i + 1, content = line, matches = None\<rparr>]);
             matchCount' = matchCount + 1
         in if maxCount options > 0 \<and> matchCount' \<ge> maxCount options then results'
            else regexLoop options rest (i + 1) matchCount' results')
      else regexLoop options rest (i + 1) matchCount results)"

definition grepBufferRegex :: "byte list \<Rightarrow> FastGrepOptions \<Rightarrow> GrepLineResult list" where
  "grepBufferRegex buffer options =
     (let content = decode buffer;
          lines = splitNewline content;
          lines = (if endsWithNewline content then butlast lines else lines)
      in regexLoop options lines 0 0 [])"

section \<open>Stream driver\<close>

text \<open>
  The byte source is the list of the chunks it delivers before it signals the end of
  the data. The outcome of a call is the value the promise resolves to, together with
  what the call did: the results passed to \<^verbatim>\<open>onResult\<close> in order, the regions handed
  to a buffer scanner in order, and the chunks it never read.
\<close>

record StreamOutcome =
  matchCount :: nat
  lineCount :: nat
  onResultCalls :: "GrepLineResult list"
  scanned :: "byte list list"
  unread :: "byte list list"

definition scanBuffer :: "byte list \<Rightarrow> FastGrepOptions \<Rightarrow> GrepLineResult list" where
  "scanBuffer buffer options =
     (if isLiteral options then grepBufferLiteral buffer options
      else grepBufferRegex buffer options)"

text \<open>\<^verbatim>\<open>{ ...result, lineNumber: result.lineNumber + lineOffset }\<close>\<close>

definition shifted :: "nat \<Rightarrow> GrepLineResult \<Rightarrow> GrepLineResult" where
  "shifted lineOffset result = result\<lparr>lineNumber := lineNumber result + lineOffset\<rparr>"

text \<open>
  The \<^verbatim>\<open>for (const result of results)\<close> loop of both branches; the flag tells whether
  the loop was left because \<^verbatim>\<open>maxCount\<close> was reached.
\<close>

fun deliver ::
  "FastGrepOptions \<Rightarrow> nat \<Rightarrow> GrepLineResult list \<Rightarrow> nat \<Rightarrow> GrepLineResult list
   \<Rightarrow> bool \<times> nat \<times> GrepLineResult list" where
  "deliver options lineOffset [] mc calls = (False, mc, calls)"
| "deliver options lineOffset (result # rest) mc calls =
     (let calls' = calls @ [shifted lineOffset result];
          mc' = mc + 1
      in if maxCount options > 0 \<and> mc' \<ge> maxCount options then (True, mc', calls')
         else deliver options lineOffset rest mc' calls')"

fun streamLoop ::
  "FastGrepOptions \<Rightarrow> byte list list \<Rightarrow> byte list \<Rightarrow> nat \<Rightarrow> nat \<Rightarrow> GrepLineResult list
   \<Rightarrow> byte list list \<Rightarrow> StreamOutcome" where
  "streamLoop options [] buffer lineOffset mc calls scans =
     (if length buffer > 0 then
        (case deliver options lineOffset (scanBuffer buffer options) mc calls of
           (stopped, mc', calls') \<Rightarrow>
             \<lparr>matchCount = mc', lineCount = lineOffset + (if length buffer > 0 then 1 else 0),
              onResultCalls = calls', scanned = scans @ [buffer], unread = []\<rparr>)
      else \<lparr>matchCount = mc, lineCount = lineOffset + (if length buffer > 0 then 1 else 0),
            onResultCalls = calls, scanned = scans, unread = []\<rparr>)"
| "streamLoop options (chunk # rest) buffer lineOffset mc calls scans =
     (let newBuffer = buffer @ chunk in
      case lastIndexOf newBuffer NEWLINE of
        None \<Rightarrow> streamLoop options rest newBuffer lineOffset mc calls scans
      | Some lastNewline \<Rightarrow>
          (let complete = sliceOf newBuffer 0 (lastNewline + 1);
               buffer' = drop (lastNewline + 1) newBuffer
           in case deliver options lineOffset (scanBuffer complete options) mc calls of
                (stopped, mc', calls') \<Rightarrow>
                  if stopped then
                    \<lparr>matchCount = mc',
                     lineCount = lineOffset + countNewlines complete 0 (length complete),
                     onResultCalls = calls', scanned = scans @ [complete], unread = rest\<rparr>
                  else streamLoop options rest buffer'
                         (lineOffset + countNewlines complete 0 (length complete)) mc' calls'
                         (scans @ [complete])))"

definition grepStream :: "byte list list \<Rightarrow> FastGrepOptions \<Rightarrow> StreamOutcome" where
  "grepStream stream options = streamLoop options stream [] 0 0 [] []"

section \<open>Example options\<close>

text \<open>A matcher that never matches, the matcher of a single code unit, and the matcher of
  the empty pattern.\<close>

definition neverMatcher :: matcher where
  "neverMatcher line i = None"

definition unitMatcher :: "nat \<Rightarrow> matcher" where
  "unitMatcher c line i = (if i < length line \<and> line ! i = c then Some 1 else None)"

definition emptyMatcher :: matcher where
  "emptyMatcher line i = Some 0"

text \<open>A literal search for an ASCII pattern with every policy flag off and no cap, and a
  regex search with the given matcher.\<close>

definition literalOptions :: "string \<Rightarrow> FastGrepOptions" where
  "literalOptions p =
     \<lparr>pattern = js p, regex = neverMatcher, isLiteral = True, ignoreCase = False,
      invertMatch = False, wholeWord = False, lineRegexp = False, maxCount = 0,
      onlyMatching = False\<rparr>"

definition regexOptions :: "string \<Rightarrow> matcher \<Rightarrow> FastGrepOptions" where
  "regexOptions p m = (literalOptions p)\<lparr>regex := m, isLiteral := False\<rparr>"

section \<open>Notions used in the statements and proofs\<close>

text \<open>The number of the line that holds offset \<open>p\<close>: one more than the newlines before it.\<close>

definition lineOf :: "byte list \<Rightarrow> nat \<Rightarrow> nat" where
  "lineOf buffer p = 1 + count_list (take p buffer) NEWLINE"

text \<open>The number of newline bytes, plus one for a non-empty last line without newline.\<close>

definition numLines :: "byte list \<Rightarrow> nat" where
  "numLines buffer =
     count_list buffer NEWLINE + (if buffer \<noteq> [] \<and> last buffer \<noteq> NEWLINE then 1 else 0)"

text \<open>The match positions that \<^verbatim>\<open>grepBufferLiteral\<close> computes before it aggregates.\<close>

definition positions :: "byte list \<Rightarrow> FastGrepOptions \<Rightarrow> nat list" where
  "positions buffer options =
     (if ignoreCase options
      then findPatternPositionsIgnoreCase buffer (encode (pattern options))
      else findPatternPositions buffer (encode (pattern options)))"

text \<open>The results after the regex loop has handled one selected line, number \<open>i + 1\<close>.\<close>

definition lineResults :: "FastGrepOptions \<Rightarrow> jsstring \<Rightarrow> nat \<Rightarrow> GrepLineResult list \<Rightarrow> GrepLineResult list" where
  "lineResults options line i results =
     (if onlyMatching options \<and> \<not> invertMatch options
      then execLoop (regex options) line (i + 1) 0 results
      else results @ [\<lparr>lineNumber = i + 1, content = line, matches = None\<rparr>])"

text \<open>The keys of the map stay in ascending order, each entry carries its key as line
  number, and no key exceeds the current line number.\<close>

definition keysOk :: "lineMatches \<Rightarrow> nat \<Rightarrow> bool" where
  "keysOk lms cln \<longleftrightarrow>
     sorted (map fst lms) \<and> (\<forall>(k, e)\<in>set lms. lm_lineNumber e = k) \<and> (\<forall>k\<in>set (map fst lms). k \<le> cln)"

text \<open>The line walk of both passes of the invert mode is at the start of line \<open>ln\<close>, or
  past the end of the buffer with every line behind it.\<close>

definition atLine :: "byte list \<Rightarrow> nat \<Rightarrow> nat \<Rightarrow> bool" where
  "atLine buffer ls ln \<longleftrightarrow>
     (ls \<le> length buffer \<and> ln = lineOf buffer ls \<and> (ls = 0 \<or> buffer ! (ls - 1) = NEWLINE)) \<or>
     (length buffer < ls \<and> numLines buffer < ln)"

text \<open>In the middle of a sequence, the code point gathered so far is not zero, or the
  next byte is bound to make it so: no multi-byte sequence decodes to a line feed.\<close>

definition decoderOk :: "nat \<Rightarrow> nat \<Rightarrow> nat \<Rightarrow> nat \<Rightarrow> nat \<Rightarrow> bool" where
  "decoderOk cp seen needed lo hi \<longleftrightarrow>
     needed = 0 \<or>
     (0x80 \<le> lo \<and> hi \<le> 0xBF \<and> seen < needed \<and> (1 \<le> cp \<or> (seen + 1 < needed \<and> 0x90 \<le> lo)))"

text \<open>Results in ascending order, none above the bound.\<close>

definition ascendingUpTo :: "nat \<Rightarrow> GrepLineResult list \<Rightarrow> bool" where
  "ascendingUpTo n rs \<longleftrightarrow> sorted (map lineNumber rs) \<and> (\<forall>r\<in>set rs. lineNumber r \<le> n)"

section \<open>The codec on ASCII text\<close>

lemma utf8_run_ascii:
  "\<forall>b\<in>set bs. unat b \<le> 0x7F \<Longrightarrow> utf8_run 0 0 0 0x80 0xBF bs = map unat bs"
  by (induction bs) simp_all

lemma strip_bom_ascii: "\<forall>c\<in>set cs. c \<le> 0x7F \<Longrightarrow> strip_bom cs = cs"
  by (cases cs) auto

lemma utf16_units_ascii: "\<forall>c\<in>set cs. c \<le> 0x7F \<Longrightarrow> concat (map utf16_units cs) = cs"
  by (induction cs) (simp_all add: utf16_units_def)

lemma decode_ascii: "\<forall>b\<in>set bs. unat b \<le> 0x7F \<Longrightarrow> decode bs = map unat bs"
proof -
  assume a: "\<forall>b\<in>set bs. unat b \<le> 0x7F"
  then have b: "\<forall>c\<in>set (map unat bs). c \<le> 0x7F" by simp
  show ?thesis
    unfolding decode_def utf8_run_ascii [OF a] strip_bom_ascii [OF b] utf16_units_ascii [OF b] ..
qed

lemma utf16_scalars_ascii: "\<forall>c\<in>set s. c \<le> 0x7F \<Longrightarrow> utf16_scalars s = s"
  by (induction s rule: utf16_scalars.induct) simp_all

lemma utf8_bytes_ascii: "\<forall>c\<in>set s. c \<le> 0x7F \<Longrightarrow> concat (map utf8_bytes s) = s"
  by (induction s) (simp_all add: utf8_bytes_def)

lemma encode_ascii: "\<forall>c\<in>set s. c \<le> 0x7F \<Longrightarrow> encode s = map of_nat s"
  unfolding encode_def by (simp add: utf16_scalars_ascii utf8_bytes_ascii)

text \<open>Unfolding rules that evaluate the scanners on concrete ASCII input.\<close>

lemmas scan_eval =
  grepBufferLiteral_def grepBufferInvert_def grepBufferRegex_def scanBuffer_def
  literalOptions_def regexOptions_def neverMatcher_def unitMatcher_def emptyMatcher_def
  js_def bytes_def encode_ascii decode_ascii NEWLINE_def LF_def
  findPatternPositions_def findPatternPositionsIgnoreCase_def toLowerAscii_def
  fppOuter.simps fppInner.simps fppOuterIC.simps fppInnerIC.simps byteAt_def
  fastForward.simps indexOf.simps extractLineAt_def lineStartFrom.simps lineEndFrom.simps
  sliceOf_def recordMatch_def materialize_def isWordBoundary_def isWordByte_def
  actualEndOf_def invertMark.simps invertInner.simps invertCollect.simps
  endsWithNewline_def regexTest_def regexExec.simps execLoop.simps
  lastIndexOf_def countNewlines_def countNewlinesFrom.simps shifted_def grepStream_def Let_def

section \<open>Correctness of the literal scanner\<close>

lemma fppInner_iff:
  "fppInner chunk pat i j \<longleftrightarrow> (\<forall>k. j \<le> k \<and> k < length pat \<longrightarrow> byteAt chunk (i + k) = Some (pat ! k))"
proof (induction chunk pat i j rule: fppInner.induct)
  case (1 chunk pat i j)
  show ?case
  proof (cases "j < length pat")
    case False
    then show ?thesis by (auto simp: fppInner.simps [of chunk pat i j])
  next
    case True
    show ?thesis
    proof (cases "byteAt chunk (i + j) = Some (pat ! j)")
      case False
      with True show ?thesis
        by (auto simp: fppInner.simps [of chunk pat i j])
    next
      case eq: True
      have "fppInner chunk pat i j = fppInner chunk pat i (j + 1)"
        using True eq by (simp add: fppInner.simps [of chunk pat i j])
      also have "\<dots> \<longleftrightarrow> (\<forall>k. j + 1 \<le> k \<and> k < length pat \<longrightarrow> byteAt chunk (i + k) = Some (pat ! k))"
        using "1.IH" True eq by simp
      also have "\<dots> \<longleftrightarrow> (\<forall>k. j \<le> k \<and> k < length pat \<longrightarrow> byteAt chunk (i + k) = Some (pat ! k))"
      proof (intro iffI allI impI)
        fix k assume h: "\<forall>k. j + 1 \<le> k \<and> k < length pat \<longrightarrow> byteAt chunk (i + k) = Some (pat ! k)"
          and k: "j \<le> k \<and> k < length pat"
        show "byteAt chunk (i + k) = Some (pat ! k)"
        proof (cases "k = j")
          case True
          then show ?thesis using eq by simp
        next
          case False
          then have "j + 1 \<le> k" using k by simp
          then show ?thesis using h k by blast
        qed
      next
        fix k assume h: "\<forall>k. j \<le> k \<and> k < length pat \<longrightarrow> byteAt chunk (i + k) = Some (pat ! k)"
          and k: "j + 1 \<le> k \<and> k < length pat"
        then have "j \<le> k \<and> k < length pat" by simp
        then show "byteAt chunk (i + k) = Some (pat ! k)" using h by blast
      qed
      finally show ?thesis .
    qed
  qed
qed

lemma fppOuter_filter:
  "fppOuter chunk pat se i acc =
     acc @ filter (\<lambda>p. byteAt chunk p = Some (pat ! 0) \<and> fppInner chunk pat p 1) [i..<se]"
proof (induction chunk pat se i acc rule: fppOuter.induct)
  case (1 chunk pat se i acc)
  show ?case
  proof (cases "i < se")
    case False
    then show ?thesis by (simp add: fppOuter.simps [of chunk pat se i acc])
  next
    case True
    then have upt: "[i..<se] = i # [i + 1..<se]" by (simp add: upt_conv_Cons)
    show ?thesis
      using True "1.IH" by (subst fppOuter.simps) (simp add: upt)
  qed
qed

lemma occurs_iff:
  assumes "pat \<noteq> []"
  shows "(byteAt chunk p = Some (pat ! 0) \<and> fppInner chunk pat p 1) \<longleftrightarrow>
         take (length pat) (drop p chunk) = pat"
proof -
  have "(byteAt chunk p = Some (pat ! 0) \<and> fppInner chunk pat p 1) \<longleftrightarrow>
        (\<forall>k<length pat. byteAt chunk (p + k) = Some (pat ! k))"
  proof
    assume h: "byteAt chunk p = Some (pat ! 0) \<and> fppInner chunk pat p 1"
    show "\<forall>k<length pat. byteAt chunk (p + k) = Some (pat ! k)"
    proof (intro allI impI)
      fix k assume k: "k < length pat"
      show "byteAt chunk (p + k) = Some (pat ! k)"
      proof (cases k)
        case 0
        then show ?thesis using h by simp
      next
        case (Suc n)
        then have "1 \<le> k" by simp
        then show ?thesis using h k unfolding fppInner_iff by blast
      qed
    qed
  next
    assume h: "\<forall>k<length pat. byteAt chunk (p + k) = Some (pat ! k)"
    have "0 < length pat" using assms by simp
    then have "byteAt chunk (p + 0) = Some (pat ! 0)" using h by blast
    then show "byteAt chunk p = Some (pat ! 0) \<and> fppInner chunk pat p 1"
      using h unfolding fppInner_iff by simp
  qed
  also have "\<dots> \<longleftrightarrow> take (length pat) (drop p chunk) = pat"
  proof
    assume h: "\<forall>k<length pat. byteAt chunk (p + k) = Some (pat ! k)"
    have "length pat - 1 < length pat" using assms by simp
    then have "byteAt chunk (p + (length pat - 1)) = Some (pat ! (length pat - 1))"
      using h by blast
    then have "p + (length pat - 1) < length chunk"
      by (simp add: byteAt_def split: if_splits)
    then have len: "p + length pat \<le> length chunk" using assms by (cases pat) auto
    show "take (length pat) (drop p chunk) = pat"
    proof (rule nth_equalityI)
      show "length (take (length pat) (drop p chunk)) = length pat" using len by simp
    next
      fix i assume "i < length (take (length pat) (drop p chunk))"
      then have i: "i < length pat" by simp
      then have "byteAt chunk (p + i) = Some (pat ! i)" using h by blast
      then have "chunk ! (p + i) = pat ! i" by (simp add: byteAt_def split: if_splits)
      then show "take (length pat) (drop p chunk) ! i = pat ! i" using i len by simp
    qed
  next
    assume e: "take (length pat) (drop p chunk) = pat"
    have "length pat = length (take (length pat) (drop p chunk))" using e by simp
    then have "length pat \<le> length chunk - p" by simp
    then have len: "p + length pat \<le> length chunk" using assms by (cases pat) auto
    show "\<forall>k<length pat. byteAt chunk (p + k) = Some (pat ! k)"
    proof (intro allI impI)
      fix k assume k: "k < length pat"
      have "pat ! k = take (length pat) (drop p chunk) ! k" using e by simp
      also have "\<dots> = chunk ! (p + k)" using k len by simp
      finally show "byteAt chunk (p + k) = Some (pat ! k)" using k len by (simp add: byteAt_def)
    qed
  qed
  finally show ?thesis .
qed

lemma findPatternPositions_spec:
  assumes "pat \<noteq> []"
  shows "findPatternPositions chunk pat =
         filter (\<lambda>p. take (length pat) (drop p chunk) = pat) [0..<length chunk]"
proof (cases "length chunk < length pat")
  case True
  have "\<And>p. take (length pat) (drop p chunk) \<noteq> pat"
  proof -
    fix p
    have "length (take (length pat) (drop p chunk)) < length pat" using True by simp
    then show "take (length pat) (drop p chunk) \<noteq> pat" by (metis less_irrefl)
  qed
  then show ?thesis using True by (simp add: findPatternPositions_def)
next
  case False
  define se where "se = length chunk - length pat + 1"
  have "0 < length pat" using assms by simp
  then have "se \<le> length chunk"
    using False unfolding se_def by arith
  then obtain k where k: "length chunk = se + k"
    using le_Suc_ex by blast
  have split: "[0..<length chunk] = [0..<se] @ [se..<length chunk]"
    unfolding k using upt_add_eq_append [of 0 se k] by simp
  have none: "filter (\<lambda>p. take (length pat) (drop p chunk) = pat) [se..<length chunk] = []"
  proof -
    have "\<And>p. se \<le> p \<Longrightarrow> take (length pat) (drop p chunk) \<noteq> pat"
    proof
      fix p assume p: "se \<le> p" and e: "take (length pat) (drop p chunk) = pat"
      have "length chunk - p < length pat" using p False \<open>0 < length pat\<close> unfolding se_def by arith
      then have "length (take (length pat) (drop p chunk)) < length pat" by simp
      then show False unfolding e by simp
    qed
    then show ?thesis by (auto simp: filter_empty_conv)
  qed
  have "findPatternPositions chunk pat = fppOuter chunk pat se 0 []"
    using False assms by (simp add: findPatternPositions_def se_def)
  also have "\<dots> = filter (\<lambda>p. byteAt chunk p = Some (pat ! 0) \<and> fppInner chunk pat p 1) [0..<se]"
    by (simp only: fppOuter_filter append_Nil)
  also have "\<dots> = filter (\<lambda>p. take (length pat) (drop p chunk) = pat) [0..<se]"
    by (simp only: occurs_iff [OF assms])
  also have "\<dots> = filter (\<lambda>p. take (length pat) (drop p chunk) = pat) [0..<length chunk]"
    by (simp only: split filter_append none append_Nil2)
  finally show ?thesis .
qed

lemma byteAt_map: "map_option f (byteAt chunk i) = byteAt (map f chunk) i"
  by (simp add: byteAt_def)

lemma fppInnerIC_fold:
  "fppInnerIC chunk lp i j = fppInner (map toLowerAscii chunk) lp i j"
proof (induction chunk lp i j rule: fppInnerIC.induct)
  case (1 chunk lp i j)
  show ?case
    using "1.IH"
    by (subst fppInnerIC.simps, subst fppInner.simps) (simp add: byteAt_map)
qed

lemma fppOuterIC_fold:
  "fppOuterIC chunk lp se i acc = fppOuter (map toLowerAscii chunk) lp se i acc"
proof (induction chunk lp se i acc rule: fppOuterIC.induct)
  case (1 chunk lp se i acc)
  show ?case
    using "1.IH"
    by (subst fppOuterIC.simps, subst fppOuter.simps) (simp add: byteAt_map fppInnerIC_fold)
qed

lemma findPatternPositionsIgnoreCase_fold:
  "findPatternPositionsIgnoreCase chunk pat =
     findPatternPositions (map toLowerAscii chunk) (map toLowerAscii pat)"
  by (simp add: findPatternPositionsIgnoreCase_def findPatternPositions_def fppOuterIC_fold)

lemma findPatternPositionsIgnoreCase_spec:
  assumes "pat \<noteq> []"
  shows "findPatternPositionsIgnoreCase chunk pat =
         filter (\<lambda>p. map toLowerAscii (take (length pat) (drop p chunk)) = map toLowerAscii pat)
           [0..<length chunk]"
  using assms findPatternPositions_spec [of "map toLowerAscii pat" "map toLowerAscii chunk"]
  by (simp add: findPatternPositionsIgnoreCase_fold take_map drop_map)

text \<open>
  Claim C7. For a non-empty pattern, \<open>findPatternPositions\<close> returns exactly the offsets at
  which the bytes of the pattern occur contiguously in the chunk, in ascending order, and
  \<open>findPatternPositionsIgnoreCase\<close> returns exactly the offsets at which they occur once
  the bytes \<open>A\<close> to \<open>Z\<close> are mapped to \<open>a\<close> to \<open>z\<close> on both sides. Both return the empty list
  when the pattern is empty or longer than the chunk.
\<close>

theorem findPatternPositions_exact:
  "(pat \<noteq> [] \<longrightarrow>
      findPatternPositions chunk pat =
        filter (\<lambda>p. take (length pat) (drop p chunk) = pat) [0..<length chunk] \<and>
      findPatternPositionsIgnoreCase chunk pat =
        filter (\<lambda>p. map toLowerAscii (take (length pat) (drop p chunk)) = map toLowerAscii pat)
          [0..<length chunk]) \<and>
   (pat = [] \<or> length chunk < length pat \<longrightarrow>
      findPatternPositions chunk pat = [] \<and> findPatternPositionsIgnoreCase chunk pat = [])"
  using findPatternPositions_spec [of pat chunk] findPatternPositionsIgnoreCase_spec [of pat chunk]
  by (auto simp: findPatternPositions_def findPatternPositionsIgnoreCase_def)

theorem findPatternPositions_exact_witness:
  "findPatternPositions (bytes ''abcabc'') (bytes ''bc'') = [1, 4] \<and>
   findPatternPositionsIgnoreCase (bytes ''aBcAbC'') (bytes ''Bc'') = [1, 4] \<and>
   findPatternPositions (bytes ''ab'') (bytes ''abc'') = [] \<and>
   findPatternPositionsIgnoreCase (bytes ''ab'') [] = []"
  using findPatternPositions_exact [of "bytes ''bc''" "bytes ''abcabc''"]
        findPatternPositions_exact [of "bytes ''Bc''" "bytes ''aBcAbC''"]
        findPatternPositions_exact [of "bytes ''abc''" "bytes ''ab''"]
        findPatternPositions_exact [of "[]" "bytes ''ab''"]
  by (simp add: bytes_def toLowerAscii_def)

section \<open>Line counting of the stream driver\<close>

lemma countNewlinesFrom_eq:
  "countNewlinesFrom chunk i e c = c + count_list (sliceOf chunk i e) NEWLINE"
proof (induction chunk i e c rule: countNewlinesFrom.induct)
  case (1 chunk i e c)
  show ?case
  proof (cases "i < e")
    case False
    then show ?thesis by (simp add: countNewlinesFrom.simps [of chunk i e c] sliceOf_def)
  next
    case True
    define d where "d = e - Suc i"
    have d: "e - i = Suc d" and d': "e - Suc i = d"
      using True by (simp_all add: d_def)
    have step: "count_list (sliceOf chunk i e) NEWLINE =
                (if byteAt chunk i = Some NEWLINE then 1 else 0) + count_list (sliceOf chunk (i + 1) e) NEWLINE"
    proof (cases "i < length chunk")
      case True
      then have "drop i chunk = chunk ! i # drop (i + 1) chunk"
        by (simp add: Cons_nth_drop_Suc)
      then show ?thesis using True by (simp add: sliceOf_def d d' byteAt_def)
    next
      case False
      then show ?thesis by (simp add: sliceOf_def byteAt_def)
    qed
    have "countNewlinesFrom chunk i e c =
          countNewlinesFrom chunk (i + 1) e (if byteAt chunk i = Some NEWLINE then c + 1 else c)"
      using True by (simp add: countNewlinesFrom.simps [of chunk i e c])
    also have "\<dots> = (if byteAt chunk i = Some NEWLINE then c + 1 else c) +
                       count_list (sliceOf chunk (i + 1) e) NEWLINE"
      using "1.IH" True by simp
    finally show ?thesis using step by simp
  qed
qed

lemma countNewlines_whole: "countNewlines chunk 0 (length chunk) = count_list chunk NEWLINE"
  by (simp add: countNewlines_def countNewlinesFrom_eq sliceOf_def)

lemma lastIndexOfBelow_None:
  "lastIndexOfBelow xs v n = None \<longleftrightarrow> (\<forall>i<n. xs ! i \<noteq> v)"
  by (induction n) (auto simp: less_Suc_eq)

lemma lastIndexOfBelow_Some:
  "lastIndexOfBelow xs v n = Some k \<Longrightarrow> k < n \<and> xs ! k = v \<and> (\<forall>i. k < i \<and> i < n \<longrightarrow> xs ! i \<noteq> v)"
  by (induction n) (auto simp: less_Suc_eq split: if_splits)

lemma lastIndexOf_None: "lastIndexOf xs v = None \<longleftrightarrow> v \<notin> set xs"
  by (auto simp: lastIndexOf_def lastIndexOfBelow_None in_set_conv_nth)

lemma lastIndexOf_Some:
  assumes "lastIndexOf xs v = Some k"
  shows "k < length xs" and "xs ! k = v" and "v \<notin> set (drop (k + 1) xs)"
proof -
  have h: "k < length xs \<and> xs ! k = v \<and> (\<forall>i. k < i \<and> i < length xs \<longrightarrow> xs ! i \<noteq> v)"
    using assms lastIndexOfBelow_Some [of xs v "length xs" k] by (simp add: lastIndexOf_def)
  then show "k < length xs" and "xs ! k = v" by simp_all
  show "v \<notin> set (drop (k + 1) xs)"
  proof
    assume "v \<in> set (drop (k + 1) xs)"
    then obtain j where j: "j < length (drop (k + 1) xs)" "drop (k + 1) xs ! j = v"
      by (auto simp: in_set_conv_nth)
    then have "k < k + 1 + j \<and> k + 1 + j < length xs" by simp
    moreover have "xs ! (k + 1 + j) = v" using j by simp
    ultimately show False using h by blast
  qed
qed

lemma deliver_unbounded:
  "maxCount options = 0 \<Longrightarrow> fst (deliver options lineOffset rs mc calls) = False"
  by (induction rs arbitrary: mc calls) simp_all


lemma streamLoop_lineCount:
  assumes "maxCount options = 0" and "NEWLINE \<notin> set buffer"
  shows "lineCount (streamLoop options cs buffer lo mc calls scans) =
         lo + count_list (concat cs) NEWLINE +
         (if buffer @ concat cs \<noteq> [] \<and> last (buffer @ concat cs) \<noteq> NEWLINE then 1 else 0)"
  using assms(2)
proof (induction cs arbitrary: buffer lo mc calls scans)
  case Nil
  then have "buffer \<noteq> [] \<Longrightarrow> last buffer \<noteq> NEWLINE"
    using last_in_set by metis
  then show ?case by (auto split: prod.splits)
next
  case (Cons c cs)
  define newBuffer where "newBuffer = buffer @ c"
  show ?case
  proof (cases "lastIndexOf newBuffer NEWLINE")
    case None
    then have nb: "NEWLINE \<notin> set newBuffer" by (simp add: lastIndexOf_None)
    then have "count_list c NEWLINE = 0" by (simp add: newBuffer_def count_list_0_iff)
    then show ?thesis
      using None Cons.IH [OF nb] by (simp add: newBuffer_def)
  next
    case (Some n)
    define complete where "complete = sliceOf newBuffer 0 (n + 1)"
    define buffer' where "buffer' = drop (n + 1) newBuffer"
    note li = lastIndexOf_Some [OF Some]
    have nb': "NEWLINE \<notin> set buffer'" using li(3) by (simp add: buffer'_def)
    have split: "newBuffer = complete @ buffer'"
      by (simp add: complete_def buffer'_def sliceOf_def)
    have "take (Suc n) newBuffer = take n newBuffer @ [newBuffer ! n]"
      using li(1) by (simp add: take_Suc_conv_app_nth)
    then have cl: "complete \<noteq> []" "last complete = NEWLINE"
      using li(2) by (simp_all add: complete_def sliceOf_def)
    have "count_list newBuffer NEWLINE = count_list complete NEWLINE"
      using nb' by (simp add: split count_list_0_iff)
    moreover have "count_list newBuffer NEWLINE = count_list c NEWLINE"
      using Cons.prems by (simp add: newBuffer_def count_list_0_iff)
    ultimately have cnt: "countNewlines complete 0 (length complete) = count_list c NEWLINE"
      by (simp add: countNewlines_whole)
    have tail: "(buffer' @ concat cs \<noteq> [] \<and> last (buffer' @ concat cs) \<noteq> NEWLINE) \<longleftrightarrow>
                (buffer @ concat (c # cs) \<noteq> [] \<and> last (buffer @ concat (c # cs)) \<noteq> NEWLINE)"
    proof -
      have e: "buffer @ concat (c # cs) = complete @ (buffer' @ concat cs)"
        using split by (simp add: newBuffer_def)
      show ?thesis unfolding e using cl by (cases "buffer' @ concat cs = []") simp_all
    qed
    obtain stopped mc' calls' where
      d: "deliver options lo (scanBuffer complete options) mc calls = (stopped, mc', calls')"
      by (cases "deliver options lo (scanBuffer complete options) mc calls") auto
    have ns: "\<not> stopped" using deliver_unbounded [OF assms(1), of lo "scanBuffer complete options" mc calls] d by simp
    have "lineCount (streamLoop options (c # cs) buffer lo mc calls scans) =
          lineCount (streamLoop options cs buffer' (lo + countNewlines complete 0 (length complete)) mc' calls' (scans @ [complete]))"
      using Some d ns by (simp add: newBuffer_def complete_def buffer'_def Let_def)
    also have "\<dots> = lo + count_list c NEWLINE + count_list (concat cs) NEWLINE +
          (if buffer' @ concat cs \<noteq> [] \<and> last (buffer' @ concat cs) \<noteq> NEWLINE then 1 else 0)"
      using Cons.IH [OF nb'] cnt by simp
    finally show ?thesis using tail by simp
  qed
qed

text \<open>
  Claim C2. With \<open>maxCount = 0\<close>, the line count reported by \<open>grepStream\<close> is the number of
  newline bytes of the concatenated chunks, plus one if the data ends with a non-empty
  line without a trailing newline; so it is the same for every partition of the same
  bytes into chunks.
\<close>

theorem grepStream_lineCount:
  "maxCount options = 0 \<Longrightarrow>
   lineCount (grepStream chunks options) =
     count_list (concat chunks) NEWLINE +
     (if concat chunks \<noteq> [] \<and> last (concat chunks) \<noteq> NEWLINE then 1 else 0) \<and>
   (\<forall>chunks'. concat chunks' = concat chunks \<longrightarrow>
      lineCount (grepStream chunks' options) = lineCount (grepStream chunks options))"
proof -
  assume m: "maxCount options = 0"
  have eq: "lineCount (grepStream cs options) =
      count_list (concat cs) NEWLINE +
      (if concat cs \<noteq> [] \<and> last (concat cs) \<noteq> NEWLINE then 1 else 0)" for cs
    using streamLoop_lineCount [OF m, of "[]" cs 0 0 "[]" "[]"]
    by (simp only: grepStream_def append_Nil add_0 set_simps empty_iff not_False_eq_True)
  show ?thesis
  proof (intro conjI allI impI)
    show "lineCount (grepStream chunks options) =
      count_list (concat chunks) NEWLINE +
      (if concat chunks \<noteq> [] \<and> last (concat chunks) \<noteq> NEWLINE then 1 else 0)"
      by (rule eq)
  next
    fix chunks' :: "byte list list"
    assume "concat chunks' = concat chunks"
    then show "lineCount (grepStream chunks' options) = lineCount (grepStream chunks options)"
      by (simp only: eq)
  qed
qed

theorem grepStream_lineCount_witness:
  "maxCount (literalOptions ''x'') = 0 \<and>
   lineCount (grepStream [bytes ''ab'', bytes ''c\<newline>d''] (literalOptions ''x'')) = 2 \<and>
   lineCount (grepStream [bytes ''abc\<newline>'', bytes ''d''] (literalOptions ''x'')) = 2 \<and>
   lineCount (grepStream [bytes ''a\<newline>'', bytes ''b\<newline>''] (literalOptions ''x'')) = 2"
  using grepStream_lineCount [of "literalOptions ''x''" "[bytes ''ab'', bytes ''c\<newline>d'']"]
        grepStream_lineCount [of "literalOptions ''x''" "[bytes ''abc\<newline>'', bytes ''d'']"]
        grepStream_lineCount [of "literalOptions ''x''" "[bytes ''a\<newline>'', bytes ''b\<newline>'']"]
  by (simp add: literalOptions_def bytes_def NEWLINE_def)

section \<open>The delivery loop\<close>

lemma deliver_all:
  "maxCount options = 0 \<or> mc + length rs < maxCount options \<Longrightarrow>
   deliver options lo rs mc calls = (False, mc + length rs, calls @ map (shifted lo) rs)"
  by (induction rs arbitrary: mc calls) (auto simp: Let_def)

lemma deliver_stop:
  "0 < maxCount options \<Longrightarrow> mc < maxCount options \<Longrightarrow> maxCount options \<le> mc + length rs \<Longrightarrow>
   deliver options lo rs mc calls =
     (True, maxCount options, calls @ map (shifted lo) (take (maxCount options - mc) rs))"
proof (induction rs arbitrary: mc calls)
  case Nil
  then show ?case by simp
next
  case (Cons r rs)
  show ?case
  proof (cases "maxCount options \<le> mc + 1")
    case True
    then have "maxCount options - mc = Suc 0" using Cons.prems by simp
    then show ?thesis using True Cons.prems by (simp add: Let_def)
  next
    case False
    then have "maxCount options - mc = Suc (maxCount options - (mc + 1))" by simp
    then show ?thesis
      using False Cons.prems Cons.IH [of "mc + 1" "calls @ [shifted lo r]"]
      by (simp add: Let_def)
  qed
qed

section \<open>A source without data\<close>

lemma lastIndexOf_Nil: "lastIndexOf [] v = None"
  by (simp add: lastIndexOf_def)

lemma streamLoop_empty_chunks:
  "\<forall>c\<in>set cs. c = [] \<Longrightarrow>
   streamLoop options cs [] lo mc calls scans =
     \<lparr>matchCount = mc, lineCount = lo, onResultCalls = calls, scanned = scans, unread = []\<rparr>"
  by (induction cs) (simp_all add: lastIndexOf_Nil)

text \<open>
  Claim C10. When the source ends having delivered no byte (no chunk, or only empty
  chunks), \<open>grepStream\<close> returns match count 0 and line count 0, never calls \<open>onResult\<close>,
  and hands no region to a buffer scanner, whatever the options.
\<close>

theorem grepStream_no_data:
  "\<forall>c\<in>set chunks. c = [] \<Longrightarrow>
   grepStream chunks options =
     \<lparr>matchCount = 0, lineCount = 0, onResultCalls = [], scanned = [], unread = []\<rparr>"
  by (simp add: grepStream_def streamLoop_empty_chunks)

theorem grepStream_no_data_witness:
  "grepStream [[], [], []] ((regexOptions '''' emptyMatcher)\<lparr>invertMatch := True\<rparr>) =
     \<lparr>matchCount = 0, lineCount = 0, onResultCalls = [], scanned = [], unread = []\<rparr> \<and>
   grepStream [] (regexOptions '''' emptyMatcher) =
     \<lparr>matchCount = 0, lineCount = 0, onResultCalls = [], scanned = [], unread = []\<rparr>"
  using grepStream_no_data [of "[[], [], []]" "(regexOptions '''' emptyMatcher)\<lparr>invertMatch := True\<rparr>"]
        grepStream_no_data [of "[]" "regexOptions '''' emptyMatcher"]
  by simp

section \<open>Stopping at the cap\<close>

text \<open>
  Claim C8. When the results of a newline-terminated region take the match count to
  \<open>maxCount > 0\<close>, \<open>grepStream\<close> returns at once: only the results up to the cap have been
  passed to \<open>onResult\<close>, the later chunks are never read, the match count is the cap, and
  the line count is the line offset plus the number of newlines of the region, all of
  which has been taken out of the buffer.
\<close>

theorem streamLoop_stops_at_cap:
  assumes "lastIndexOf (buffer @ chunk) NEWLINE = Some n"
    and "complete = sliceOf (buffer @ chunk) 0 (n + 1)"
    and "0 < maxCount options" and "mc < maxCount options"
    and "maxCount options \<le> mc + length (scanBuffer complete options)"
  shows "streamLoop options (chunk # rest) buffer lo mc calls scans =
           \<lparr>matchCount = maxCount options,
            lineCount = lo + countNewlines complete 0 (length complete),
            onResultCalls =
              calls @ map (shifted lo) (take (maxCount options - mc) (scanBuffer complete options)),
            scanned = scans @ [complete],
            unread = rest\<rparr>"
  using assms deliver_stop [OF assms(3,4,5), of lo calls]
  by (simp add: Let_def)


theorem streamLoop_stops_at_cap_witness:
  "lastIndexOf ([] @ bytes ''a\<newline>b\<newline>a\<newline>'') NEWLINE = Some 5 \<and>
   0 < maxCount ((literalOptions ''a'')\<lparr>maxCount := 2\<rparr>) \<and>
   maxCount ((literalOptions ''a'')\<lparr>maxCount := 2\<rparr>) \<le>
     0 + length (scanBuffer (bytes ''a\<newline>b\<newline>a\<newline>'') ((literalOptions ''a'')\<lparr>maxCount := 2\<rparr>)) \<and>
   grepStream [bytes ''a\<newline>b\<newline>a\<newline>'', bytes ''a\<newline>''] ((literalOptions ''a'')\<lparr>maxCount := 2\<rparr>) =
     \<lparr>matchCount = 2, lineCount = 3,
      onResultCalls = [\<lparr>lineNumber = 1, content = js ''a'', matches = None\<rparr>,
                       \<lparr>lineNumber = 3, content = js ''a'', matches = None\<rparr>],
      scanned = [bytes ''a\<newline>b\<newline>a\<newline>''],
      unread = [bytes ''a\<newline>'']\<rparr>"
proof -
  let ?o = "(literalOptions ''a'')\<lparr>maxCount := 2\<rparr>"
  let ?c = "bytes ''a\<newline>b\<newline>a\<newline>''"
  have l: "lastIndexOf ([] @ ?c) NEWLINE = Some 5" by (simp add: scan_eval)
  have c: "?c = sliceOf ([] @ ?c) 0 (5 + 1)" by (simp add: scan_eval)
  have s: "scanBuffer ?c ?o = [\<lparr>lineNumber = 1, content = js ''a'', matches = None\<rparr>,
                       \<lparr>lineNumber = 3, content = js ''a'', matches = None\<rparr>]"
    by (simp add: scan_eval)
  have m: "0 < maxCount ?o" "(0::nat) < maxCount ?o" by (simp_all add: scan_eval)
  have k: "maxCount ?o \<le> 0 + length (scanBuffer ?c ?o)" unfolding s by (simp add: scan_eval)
  show ?thesis
    using streamLoop_stops_at_cap [OF l c m k, of "[bytes ''a\<newline>'']" 0 "[]" "[]"] l m k
    unfolding s by (simp add: scan_eval)
qed

text \<open>
  Claim C3. The stream that delivers \<open>partial\<close> and then \<open>line\<close> followed by a newline,
  searched for the literal \<open>partialline\<close> with every flag off, calls \<open>onResult\<close> exactly once,
  with line number 1 and content \<open>partialline\<close>, and returns match count 1: the bytes of
  the first chunk are carried over, and the only region scanned is the completed line.
\<close>

theorem grepStream_partialline:
  "grepStream [bytes ''partial'', bytes ''line\<newline>''] (literalOptions ''partialline'') =
     \<lparr>matchCount = 1, lineCount = 1,
      onResultCalls = [\<lparr>lineNumber = 1, content = js ''partialline'', matches = None\<rparr>],
      scanned = [bytes ''partialline\<newline>''],
      unread = []\<rparr>"
  by (simp add: scan_eval)

section \<open>The fields of a result\<close>

lemma matches_materialize: "r \<in> set (materialize options lms) \<Longrightarrow> matches r = None"
  by (auto simp: materialize_def)

theorem literal_offsets_counterexample:
  "literalLoop (bytes ''foo\<newline>bar\<newline>'') (literalOptions ''foo'') 3 [0] 0 1 [] =
     [(1, \<lparr>lm_lineNumber = 1, lm_content = js ''foo'', lm_positions = [0]\<rparr>)] \<and>
   grepBufferLiteral (bytes ''foo\<newline>bar\<newline>'') (literalOptions ''foo'') =
     [\<lparr>lineNumber = 1, content = js ''foo'', matches = None\<rparr>]"
  by (simp add: scan_eval)

text \<open>
  Claim C5, as amended. In the forward literal path every returned result consists of
  its line number and its content only: the occurrence offsets are gathered per line
  while scanning, but no result has a \<open>matches\<close> field.
\<close>

theorem literal_results_without_matches:
  "\<not> invertMatch options \<Longrightarrow> \<forall>r\<in>set (grepBufferLiteral buffer options). matches r = None"
  by (simp add: grepBufferLiteral_def Let_def matches_materialize)

theorem literal_results_without_matches_witness:
  "\<not> invertMatch (literalOptions ''a'') \<and>
   grepBufferLiteral (bytes ''a\<newline>b\<newline>aa\<newline>'') (literalOptions ''a'') =
     [\<lparr>lineNumber = 1, content = js ''a'', matches = None\<rparr>,
      \<lparr>lineNumber = 3, content = js ''aa'', matches = None\<rparr>] \<and>
   map matches (grepBufferLiteral (bytes ''a\<newline>b\<newline>aa\<newline>'') (literalOptions ''a'')) =
     [None, None]"
proof -
  have n: "\<not> invertMatch (literalOptions ''a'')" by (simp add: literalOptions_def)
  have e: "grepBufferLiteral (bytes ''a\<newline>b\<newline>aa\<newline>'') (literalOptions ''a'') =
     [\<lparr>lineNumber = 1, content = js ''a'', matches = None\<rparr>,
      \<lparr>lineNumber = 3, content = js ''aa'', matches = None\<rparr>]"
    by (simp add: scan_eval)
  have "map matches (grepBufferLiteral (bytes ''a\<newline>b\<newline>aa\<newline>'') (literalOptions ''a'')) =
        map (\<lambda>r. None) (grepBufferLiteral (bytes ''a\<newline>b\<newline>aa\<newline>'') (literalOptions ''a''))"
    using literal_results_without_matches [OF n, of "bytes ''a\<newline>b\<newline>aa\<newline>''"]
    by (intro map_cong) simp_all
  then show ?thesis using n e by simp
qed

section \<open>The empty buffer\<close>

lemma grepBufferLiteral_Nil: "grepBufferLiteral [] options = []"
  by (simp add: grepBufferLiteral_def grepBufferInvert_def findPatternPositions_def
      findPatternPositionsIgnoreCase_def invertMark.simps invertCollect.simps materialize_def Let_def)

text \<open>
  Claim C6. On the empty buffer the literal scanner returns no result, but the regex
  scanner splits the empty text into one empty line and tests it: it returns that line
  when the expression does not match it and \<open>invertMatch\<close> is set, and when the
  expression matches the empty string.
\<close>

theorem grepBufferRegex_empty_buffer:
  "grepBufferRegex [] ((regexOptions ''a'' (unitMatcher 97))\<lparr>invertMatch := True\<rparr>) =
     [\<lparr>lineNumber = 1, content = [], matches = None\<rparr>] \<and>
   grepBufferRegex [] (regexOptions '''' emptyMatcher) =
     [\<lparr>lineNumber = 1, content = [], matches = None\<rparr>] \<and>
   grepBufferLiteral [] ((literalOptions ''a'')\<lparr>invertMatch := True\<rparr>) = []"
  by (simp add: scan_eval)

section \<open>The cap on the number of results\<close>

lemma length_recordMatch: "length (recordMatch lms n c off) \<le> length lms + 1"
  by (simp add: recordMatch_def Let_def)

lemma literalLoop_length:
  "0 < maxCount options \<Longrightarrow> length lms < maxCount options \<Longrightarrow>
   length (literalLoop buffer options patternLen ps cls cln lms) \<le> maxCount options"
proof (induction ps arbitrary: cls cln lms)
  case Nil
  then show ?case by simp
next
  case (Cons pos ps)
  obtain cls' cln' where ff: "fastForward buffer pos cls cln = (cls', cln')"
    by (cases "fastForward buffer pos cls cln") auto
  define lms' where
    "lms' = recordMatch lms cln' (line_content (extractLineAt buffer pos))
              (pos - line_start (extractLineAt buffer pos))"
  have l: "length lms' \<le> length lms + 1" unfolding lms'_def by (rule length_recordMatch)
  have skip: "length (literalLoop buffer options patternLen ps cls' cln' lms) \<le> maxCount options"
    using Cons.IH [OF Cons.prems] .
  have rec: "\<not> maxCount options \<le> length lms' \<Longrightarrow>
        length (literalLoop buffer options patternLen ps cls' cln' lms') \<le> maxCount options"
    using Cons.IH [OF Cons.prems(1), of lms'] by simp
  have stop: "maxCount options \<le> length lms' \<Longrightarrow> length lms' \<le> maxCount options"
    using l Cons.prems by simp
  show ?case
    using skip rec stop Cons.prems(1) by (simp add: ff Let_def flip: lms'_def)
qed

lemma invertCollect_length:
  "0 < maxCount options \<Longrightarrow> mc < maxCount options \<Longrightarrow>
   length (invertCollect buffer options ms ls ln mc results) \<le>
     length results + (maxCount options - mc)"
proof (induction buffer options ms ls ln mc results rule: invertCollect.induct)
  case (1 buffer options ms ls ln mc results)
  show ?case
  proof (cases "ls < length buffer")
    case False
    then show ?thesis by (simp add: invertCollect.simps [of buffer options ms ls ln mc results])
  next
    case True
    define ae where "ae = actualEndOf buffer ls"
    define r where "r = \<lparr>lineNumber = ln, content = decode (sliceOf buffer ls ae), matches = None\<rparr>"
    show ?thesis
    proof (cases "ln \<in> ms")
      case in_set: True
      have "invertCollect buffer options ms ls ln mc results =
              invertCollect buffer options ms (ae + 1) (ln + 1) mc results"
        using True in_set by (simp add: invertCollect.simps [of buffer options ms ls ln mc results] ae_def)
      then show ?thesis
        using "1.IH"(2) [OF True ae_def] in_set "1.prems" by simp
    next
      case False
      show ?thesis
      proof (cases "maxCount options \<le> mc + 1")
        case stop: True
        have "invertCollect buffer options ms ls ln mc results = results @ [r]"
          using True False stop "1.prems"
          by (simp add: invertCollect.simps [of buffer options ms ls ln mc results] ae_def r_def Let_def)
        then show ?thesis using "1.prems" by simp
      next
        case go: False
        have e: "invertCollect buffer options ms ls ln mc results =
                 invertCollect buffer options ms (ae + 1) (ln + 1) (mc + 1) (results @ [r])"
          using True False go
          by (simp add: invertCollect.simps [of buffer options ms ls ln mc results] ae_def r_def Let_def)
        have "length (invertCollect buffer options ms (ae + 1) (ln + 1) (mc + 1) (results @ [r]))
              \<le> length (results @ [r]) + (maxCount options - (mc + 1))"
          using "1.IH"(1) [OF True ae_def False _ _ _ "1.prems"(1), of "results @ [r]" "mc + 1"] go
          by (simp add: r_def)
        then show ?thesis using e go by simp
      qed
    qed
  qed
qed

lemma grepBufferLiteral_length:
  assumes "0 < maxCount options"
  shows "length (grepBufferLiteral buffer options) \<le> maxCount options"
proof (cases "invertMatch options")
  case True
  then show ?thesis
    using invertCollect_length [OF assms assms, of buffer _ 0 1 "[]"]
    by (simp add: grepBufferLiteral_def grepBufferInvert_def Let_def)
next
  case False
  then show ?thesis
    using literalLoop_length [OF assms, of "[]"] assms
    by (simp add: grepBufferLiteral_def materialize_def Let_def)
qed


lemma execLoop_lineNumbers:
  "lineNumber ` set (execLoop m line lineNo li results) \<subseteq> insert lineNo (lineNumber ` set results)"
proof (induction m line lineNo li results rule: execLoop.induct)
  case (1 m line lineNo li results)
  show ?case
  proof (cases "regexExec m line li")
    case None
    then show ?thesis by (auto simp: execLoop.simps [of m line lineNo li results])
  next
    case (Some p)
    obtain index len where p: "p = (index, len)" by (cases p)
    define match0 where "match0 = sliceOf line index (index + len)"
    define results' where
      "results' = results @ [\<lparr>lineNumber = lineNo, content = match0, matches = None\<rparr>]"
    have e: "execLoop m line lineNo li results =
             execLoop m line lineNo (if length match0 = 0 then index + len + 1 else index + len) results'"
      using Some p by (simp add: execLoop.simps [of m line lineNo li results] match0_def results'_def Let_def)
    have "lineNumber ` set (execLoop m line lineNo
             (if length match0 = 0 then index + len + 1 else index + len) results')
          \<subseteq> insert lineNo (lineNumber ` set results')"
      using "1.IH" [OF Some p [symmetric] match0_def results'_def] .
    then show ?thesis unfolding e by (auto simp: results'_def)
  qed
qed

lemma card_insert_image_le:
  "card (lineNumber ` set (rs :: GrepLineResult list)) \<le> n \<Longrightarrow> A \<subseteq> insert x (lineNumber ` set rs) \<Longrightarrow>
   card A \<le> n + 1"
proof -
  assume a: "card (lineNumber ` set rs) \<le> n" and b: "A \<subseteq> insert x (lineNumber ` set rs)"
  have "card A \<le> card (insert x (lineNumber ` set rs))"
    using b by (intro card_mono) simp_all
  also have "\<dots> \<le> card (lineNumber ` set rs) + 1"
    by (simp add: card_insert_if)
  finally show ?thesis using a by simp
qed

lemma lineResults_lineNumbers:
  "lineNumber ` set (lineResults options line i results) \<subseteq> insert (i + 1) (lineNumber ` set results)"
  using execLoop_lineNumbers [of "regex options" line "i + 1" 0 results]
  by (auto simp: lineResults_def)

lemma regexLoop_unfold:
  "regexLoop options (line # rest) i mc results =
     (if regexTest (regex options) line \<noteq> invertMatch options then
        (if maxCount options > 0 \<and> mc + 1 \<ge> maxCount options then lineResults options line i results
         else regexLoop options rest (i + 1) (mc + 1) (lineResults options line i results))
      else regexLoop options rest (i + 1) mc results)"
  by (simp add: lineResults_def Let_def)

lemma regexLoop_card:
  "0 < maxCount options \<Longrightarrow> mc < maxCount options \<Longrightarrow>
   card (lineNumber ` set (regexLoop options lines i mc results)) \<le>
     card (lineNumber ` set results) + (maxCount options - mc)"
proof (induction lines arbitrary: i mc results)
  case Nil
  then show ?case by simp
next
  case (Cons line rest)
  have one: "card (lineNumber ` set (lineResults options line i results)) \<le>
             card (lineNumber ` set results) + 1"
    using card_insert_image_le [OF le_refl lineResults_lineNumbers] .
  show ?case
  proof (cases "regexTest (regex options) line \<noteq> invertMatch options")
    case False
    then show ?thesis
      using Cons.IH [OF Cons.prems, of "i + 1" results] by (simp only: regexLoop_unfold if_False)
  next
    case True
    show ?thesis
    proof (cases "maxCount options \<le> mc + 1")
      case stop: True
      then show ?thesis
        using True one Cons.prems by (simp only: regexLoop_unfold) simp
    next
      case go: False
      have "card (lineNumber ` set (regexLoop options rest (i + 1) (mc + 1) (lineResults options line i results)))
            \<le> card (lineNumber ` set (lineResults options line i results)) + (maxCount options - (mc + 1))"
        using Cons.IH [OF Cons.prems(1), of "mc + 1"] go by simp
      then show ?thesis
        using True go one by (simp only: regexLoop_unfold) simp
    qed
  qed
qed

lemma regexLoop_length:
  "0 < maxCount options \<Longrightarrow> mc < maxCount options \<Longrightarrow>
   \<not> (onlyMatching options \<and> \<not> invertMatch options) \<Longrightarrow>
   length (regexLoop options lines i mc results) \<le> length results + (maxCount options - mc)"
proof (induction lines arbitrary: i mc results)
  case Nil
  then show ?case by simp
next
  case (Cons line rest)
  have one: "length (lineResults options line i results) = length results + 1"
    using Cons.prems(3) by (auto simp: lineResults_def)
  show ?case
  proof (cases "regexTest (regex options) line \<noteq> invertMatch options")
    case False
    then show ?thesis
      using Cons.IH [OF Cons.prems, of "i + 1" results] by (simp only: regexLoop_unfold if_False)
  next
    case True
    show ?thesis
    proof (cases "maxCount options \<le> mc + 1")
      case stop: True
      then show ?thesis
        using True one Cons.prems by (simp only: regexLoop_unfold) simp
    next
      case go: False
      have "length (regexLoop options rest (i + 1) (mc + 1) (lineResults options line i results))
            \<le> length (lineResults options line i results) + (maxCount options - (mc + 1))"
        using Cons.IH [OF Cons.prems(1) _ Cons.prems(3), of "mc + 1"] go by simp
      then show ?thesis
        using True go one by (simp only: regexLoop_unfold) simp
    qed
  qed
qed

lemma streamLoop_Nil:
  "streamLoop options [] [] lo mc calls scans =
     \<lparr>matchCount = mc, lineCount = lo, onResultCalls = calls, scanned = scans, unread = []\<rparr>"
  "buffer \<noteq> [] \<Longrightarrow> deliver options lo (scanBuffer buffer options) mc calls = (stopped, mc', calls') \<Longrightarrow>
   streamLoop options [] buffer lo mc calls scans =
     \<lparr>matchCount = mc', lineCount = lo + 1, onResultCalls = calls', scanned = scans @ [buffer],
      unread = []\<rparr>"
  by simp_all

lemma streamLoop_Cons_None:
  "lastIndexOf (buffer @ chunk) NEWLINE = None \<Longrightarrow>
   streamLoop options (chunk # rest) buffer lo mc calls scans =
     streamLoop options rest (buffer @ chunk) lo mc calls scans"
  by simp

lemma streamLoop_Cons_Some:
  "lastIndexOf (buffer @ chunk) NEWLINE = Some n \<Longrightarrow>
   complete = sliceOf (buffer @ chunk) 0 (n + 1) \<Longrightarrow>
   deliver options lo (scanBuffer complete options) mc calls = (stopped, mc', calls') \<Longrightarrow>
   streamLoop options (chunk # rest) buffer lo mc calls scans =
     (if stopped then
        \<lparr>matchCount = mc', lineCount = lo + countNewlines complete 0 (length complete),
         onResultCalls = calls', scanned = scans @ [complete], unread = rest\<rparr>
      else streamLoop options rest (drop (n + 1) (buffer @ chunk))
             (lo + countNewlines complete 0 (length complete)) mc' calls' (scans @ [complete]))"
  by (simp add: Let_def)

lemma streamLoop_calls_length:
  "0 < maxCount options \<Longrightarrow> mc < maxCount options \<Longrightarrow>
   length (onResultCalls (streamLoop options cs buffer lo mc calls scans)) \<le>
     length calls + (maxCount options - mc)"
proof (induction cs arbitrary: buffer lo mc calls scans)
  case Nil
  show ?case
  proof (cases "buffer = []")
    case True
    then show ?thesis by (simp only: streamLoop_Nil(1)) simp
  next
    case ne: False
    show ?thesis
    proof (cases "maxCount options \<le> mc + length (scanBuffer buffer options)")
      case True
      show ?thesis
        unfolding streamLoop_Nil(2) [OF ne deliver_stop [OF Nil.prems True]]
        using True Nil.prems by simp
    next
      case False
      then have dis: "maxCount options = 0 \<or> mc + length (scanBuffer buffer options) < maxCount options"
        by simp
      show ?thesis
        unfolding streamLoop_Nil(2) [OF ne deliver_all [OF dis]] using False by simp
    qed
  qed
next
  case (Cons c cs)
  show ?case
  proof (cases "lastIndexOf (buffer @ c) NEWLINE")
    case None
    then show ?thesis using Cons.IH [OF Cons.prems] by (simp only: streamLoop_Cons_None)
  next
    case (Some n)
    define complete where "complete = sliceOf (buffer @ c) 0 (n + 1)"
    show ?thesis
    proof (cases "maxCount options \<le> mc + length (scanBuffer complete options)")
      case True
      show ?thesis
        unfolding streamLoop_Cons_Some [OF Some complete_def deliver_stop [OF Cons.prems True]]
        using True Cons.prems by simp
    next
      case False
      then have lt: "mc + length (scanBuffer complete options) < maxCount options" by simp
      then have lt': "maxCount options = 0 \<or> mc + length (scanBuffer complete options) < maxCount options"
        by simp
      have "length (onResultCalls (streamLoop options cs (drop (n + 1) (buffer @ c))
               (lo + countNewlines complete 0 (length complete))
               (mc + length (scanBuffer complete options))
               (calls @ map (shifted lo) (scanBuffer complete options)) (scans @ [complete])))
            \<le> length (calls @ map (shifted lo) (scanBuffer complete options)) +
                (maxCount options - (mc + length (scanBuffer complete options)))"
        using Cons.IH [OF Cons.prems(1) lt] .
      then show ?thesis
        unfolding streamLoop_Cons_Some [OF Some complete_def deliver_all [OF lt']]
        using lt by simp
    qed
  qed
qed

text \<open>
  Claim C1, as amended. With \<open>maxCount = k > 0\<close>: the literal scanner returns at most \<open>k\<close>
  results; the regex scanner selects at most \<open>k\<close> lines, so its results carry at most \<open>k\<close>
  distinct line numbers, and they number at most \<open>k\<close> unless \<open>onlyMatching\<close> without
  \<open>invertMatch\<close> emits one result per fragment; and the stream driver calls \<open>onResult\<close> at
  most \<open>k\<close> times in total.
\<close>

theorem maxCount_cap:
  "0 < maxCount options \<Longrightarrow>
   length (grepBufferLiteral buffer options) \<le> maxCount options \<and>
   card (lineNumber ` set (grepBufferRegex buffer options)) \<le> maxCount options \<and>
   (\<not> (onlyMatching options \<and> \<not> invertMatch options) \<longrightarrow>
      length (grepBufferRegex buffer options) \<le> maxCount options) \<and>
   length (onResultCalls (grepStream chunks options)) \<le> maxCount options"
proof (intro conjI impI)
  assume k: "0 < maxCount options"
  show "length (grepBufferLiteral buffer options) \<le> maxCount options"
    using k by (rule grepBufferLiteral_length)
  show "card (lineNumber ` set (grepBufferRegex buffer options)) \<le> maxCount options"
    using regexLoop_card [OF k k, of _ 0 "[]"] by (simp add: grepBufferRegex_def Let_def)
  show "length (onResultCalls (grepStream chunks options)) \<le> maxCount options"
    using streamLoop_calls_length [OF k k, of chunks "[]" 0 "[]" "[]"] by (simp add: grepStream_def)
next
  assume k: "0 < maxCount options" and n: "\<not> (onlyMatching options \<and> \<not> invertMatch options)"
  show "length (grepBufferRegex buffer options) \<le> maxCount options"
    using regexLoop_length [OF k k n, of _ 0 "[]"] by (simp add: grepBufferRegex_def Let_def)
qed

theorem maxCount_cap_counterexample:
  "maxCount ((regexOptions ''a'' (unitMatcher 97))\<lparr>maxCount := 1, onlyMatching := True\<rparr>) = 1 \<and>
   grepBufferRegex (bytes ''aa'') ((regexOptions ''a'' (unitMatcher 97))\<lparr>maxCount := 1, onlyMatching := True\<rparr>) =
     [\<lparr>lineNumber = 1, content = js ''a'', matches = None\<rparr>,
      \<lparr>lineNumber = 1, content = js ''a'', matches = None\<rparr>] \<and>
   \<not> length (grepBufferRegex (bytes ''aa'')
        ((regexOptions ''a'' (unitMatcher 97))\<lparr>maxCount := 1, onlyMatching := True\<rparr>)) \<le>
       maxCount ((regexOptions ''a'' (unitMatcher 97))\<lparr>maxCount := 1, onlyMatching := True\<rparr>)"
  by (simp add: scan_eval)

theorem maxCount_cap_witness:
  "0 < maxCount ((regexOptions ''a'' (unitMatcher 97))\<lparr>maxCount := 1, onlyMatching := True\<rparr>) \<and>
   length (grepBufferLiteral (bytes ''aa\<newline>a\<newline>'')
             ((regexOptions ''a'' (unitMatcher 97))\<lparr>maxCount := 1, onlyMatching := True\<rparr>)) \<le> 1 \<and>
   card (lineNumber ` set (grepBufferRegex (bytes ''aa\<newline>a\<newline>'')
             ((regexOptions ''a'' (unitMatcher 97))\<lparr>maxCount := 1, onlyMatching := True\<rparr>))) \<le> 1 \<and>
   length (onResultCalls (grepStream [bytes ''aa\<newline>a\<newline>'']
             ((regexOptions ''a'' (unitMatcher 97))\<lparr>maxCount := 1, onlyMatching := True\<rparr>))) \<le> 1 \<and>
   0 < maxCount ((regexOptions ''a'' (unitMatcher 97))\<lparr>maxCount := 1\<rparr>) \<and>
   \<not> (onlyMatching ((regexOptions ''a'' (unitMatcher 97))\<lparr>maxCount := 1\<rparr>) \<and>
      \<not> invertMatch ((regexOptions ''a'' (unitMatcher 97))\<lparr>maxCount := 1\<rparr>)) \<and>
   length (grepBufferRegex (bytes ''aa\<newline>a\<newline>'')
             ((regexOptions ''a'' (unitMatcher 97))\<lparr>maxCount := 1\<rparr>)) \<le> 1"
  using maxCount_cap [of "(regexOptions ''a'' (unitMatcher 97))\<lparr>maxCount := 1, onlyMatching := True\<rparr>"
          "bytes ''aa\<newline>a\<newline>''" "[bytes ''aa\<newline>a\<newline>'']"]
        maxCount_cap [of "(regexOptions ''a'' (unitMatcher 97))\<lparr>maxCount := 1\<rparr>"
          "bytes ''aa\<newline>a\<newline>''" "[]"]
  by (simp add: regexOptions_def literalOptions_def)

section \<open>Lines of a buffer\<close>

lemma indexOf_Some:
  "indexOf xs v i = Some n \<Longrightarrow>
   i \<le> n \<and> n < length xs \<and> xs ! n = v \<and> (\<forall>j. i \<le> j \<and> j < n \<longrightarrow> xs ! j \<noteq> v)"
proof (induction xs v i rule: indexOf.induct)
  case (1 xs v i)
  show ?case
  proof (cases "i < length xs \<and> xs ! i \<noteq> v")
    case True
    then have "indexOf xs v (i + 1) = Some n"
      using "1.prems" by (simp add: indexOf.simps [of xs v i])
    then have ih: "i + 1 \<le> n \<and> n < length xs \<and> xs ! n = v \<and> (\<forall>j. i + 1 \<le> j \<and> j < n \<longrightarrow> xs ! j \<noteq> v)"
      using "1.IH" True by simp
    have "xs ! j \<noteq> v" if "i \<le> j \<and> j < n" for j
    proof (cases "j = i")
      case True
      then show ?thesis using \<open>i < length xs \<and> xs ! i \<noteq> v\<close> by simp
    next
      case False
      then have "i + 1 \<le> j \<and> j < n" using that by simp
      then show ?thesis using ih by blast
    qed
    then show ?thesis using ih by simp
  next
    case False
    then show ?thesis
      using "1.prems" by (auto simp: indexOf.simps [of xs v i] split: if_splits)
  qed
qed

lemma indexOf_None:
  "indexOf xs v i = None \<Longrightarrow> i \<le> j \<Longrightarrow> j < length xs \<Longrightarrow> xs ! j \<noteq> v"
proof (induction xs v i rule: indexOf.induct)
  case (1 xs v i)
  have il: "i < length xs" using "1.prems" by simp
  have ne: "xs ! i \<noteq> v" using "1.prems"(1) il by (auto simp: indexOf.simps [of xs v i] split: if_splits)
  show ?case
  proof (cases "j = i")
    case True
    then show ?thesis using ne by simp
  next
    case False
    have "indexOf xs v (i + 1) = None"
      using "1.prems"(1) il ne by (simp add: indexOf.simps [of xs v i])
    then show ?thesis using "1.IH" [OF il ne] False "1.prems" by simp
  qed
qed

lemma count_list_sliceOf_0:
  "(\<And>j. i \<le> j \<Longrightarrow> j < e \<Longrightarrow> j < length xs \<Longrightarrow> xs ! j \<noteq> v) \<Longrightarrow> count_list (sliceOf xs i e) v = 0"
proof -
  assume h: "\<And>j. i \<le> j \<Longrightarrow> j < e \<Longrightarrow> j < length xs \<Longrightarrow> xs ! j \<noteq> v"
  have "v \<notin> set (sliceOf xs i e)"
  proof
    assume "v \<in> set (sliceOf xs i e)"
    then obtain k where k: "k < length (sliceOf xs i e)" "sliceOf xs i e ! k = v"
      by (auto simp: in_set_conv_nth)
    then have b: "k < e - i" "i + k < length xs" by (auto simp: sliceOf_def)
    then have "sliceOf xs i e ! k = xs ! (i + k)" by (simp add: sliceOf_def)
    moreover have "i \<le> i + k" "i + k < e" using b by simp_all
    ultimately show False using h [of "i + k"] k(2) b(2) by simp
  qed
  then show ?thesis by (simp add: count_list_0_iff)
qed

lemma sliceOf_split:
  "i \<le> n \<Longrightarrow> n < e \<Longrightarrow> n < length xs \<Longrightarrow>
   sliceOf xs i e = sliceOf xs i n @ [xs ! n] @ sliceOf xs (n + 1) e"
proof -
  assume a: "i \<le> n" "n < e" "n < length xs"
  have "take (e - i) (drop i xs) = take (n - i) (drop i xs) @ take (e - i - (n - i)) (drop (n - i) (drop i xs))"
    using a by (metis le_add_diff_inverse take_add diff_le_mono less_imp_le_nat)
  also have "drop (n - i) (drop i xs) = drop n xs" using a by simp
  also have "e - i - (n - i) = Suc (e - (n + 1))" using a by simp
  also have "drop n xs = xs ! n # drop (n + 1) xs" using a by (simp add: Cons_nth_drop_Suc)
  finally show ?thesis by (simp add: sliceOf_def)
qed

lemma take_as_sliceOf: "take p xs = sliceOf xs 0 p"
  by (simp add: sliceOf_def)

lemma sliceOf_append: "i \<le> n \<Longrightarrow> n \<le> e \<Longrightarrow> sliceOf xs i e = sliceOf xs i n @ sliceOf xs n e"
proof -
  assume a: "i \<le> n" "n \<le> e"
  have "take (e - i) (drop i xs) = take (n - i) (drop i xs) @ take (e - i - (n - i)) (drop (n - i) (drop i xs))"
    using a by (metis le_add_diff_inverse take_add diff_le_mono)
  also have "drop (n - i) (drop i xs) = drop n xs" using a by simp
  also have "e - i - (n - i) = e - n" using a by simp
  finally show ?thesis by (simp add: sliceOf_def)
qed

lemma lineOf_mono: "p \<le> q \<Longrightarrow> lineOf buffer p \<le> lineOf buffer q"
proof -
  assume "p \<le> q"
  then have "take q buffer = take p buffer @ sliceOf buffer p q"
    using sliceOf_append [of 0 p q buffer] by (simp add: sliceOf_def)
  then show ?thesis by (simp add: lineOf_def)
qed

lemma lineOf_add:
  "p \<le> q \<Longrightarrow> lineOf buffer q = lineOf buffer p + count_list (sliceOf buffer p q) NEWLINE"
proof -
  assume "p \<le> q"
  then have "take q buffer = take p buffer @ sliceOf buffer p q"
    using sliceOf_append [of 0 p q buffer] by (simp add: sliceOf_def)
  then show ?thesis by (simp add: lineOf_def)
qed

lemma fastForward_spec:
  "cls \<le> pos \<Longrightarrow> fastForward buffer pos cls cln = (cls', cln') \<Longrightarrow>
   cls \<le> cls' \<and> cls' \<le> pos \<and> cln' = cln + count_list (sliceOf buffer cls pos) NEWLINE \<and>
   count_list (sliceOf buffer cls' pos) NEWLINE = 0"
proof (induction buffer pos cls cln rule: fastForward.induct)
  case (1 buffer pos cls cln)
  show ?case
  proof (cases "cls < pos")
    case False
    then have "(cls', cln') = (cls, cln)"
      using "1.prems"(2) by (simp add: fastForward.simps [of buffer pos cls cln])
    moreover have "cls = pos" using False "1.prems"(1) by simp
    ultimately show ?thesis by (simp add: sliceOf_def)
  next
    case True
    show ?thesis
    proof (cases "indexOf buffer NEWLINE cls")
      case None
      have "count_list (sliceOf buffer cls pos) NEWLINE = 0"
        using indexOf_None [OF None] by (intro count_list_sliceOf_0) simp
      then show ?thesis
        using "1.prems" True None by (simp add: fastForward.simps [of buffer pos cls cln])
    next
      case (Some n)
      note ix = indexOf_Some [OF Some]
      show ?thesis
      proof (cases "pos \<le> n")
        case ge: True
        have "count_list (sliceOf buffer cls pos) NEWLINE = 0"
          using ix ge by (intro count_list_sliceOf_0) simp
        then show ?thesis
          using "1.prems" True Some ge by (simp add: fastForward.simps [of buffer pos cls cln])
      next
        case lt: False
        have ff: "fastForward buffer pos (n + 1) (cln + 1) = (cls', cln')"
          using "1.prems" True Some lt by (simp add: fastForward.simps [of buffer pos cls cln])
        have ih: "n + 1 \<le> cls' \<and> cls' \<le> pos \<and>
                  cln' = cln + 1 + count_list (sliceOf buffer (n + 1) pos) NEWLINE \<and>
                  count_list (sliceOf buffer cls' pos) NEWLINE = 0"
          using "1.IH" [OF True Some _ _ ff] lt by simp
        have z: "count_list (sliceOf buffer cls n) NEWLINE = 0"
          using ix by (intro count_list_sliceOf_0) simp
        have "sliceOf buffer cls pos = sliceOf buffer cls n @ [buffer ! n] @ sliceOf buffer (n + 1) pos"
          using ix lt by (intro sliceOf_split) simp_all
        then have "count_list (sliceOf buffer cls pos) NEWLINE =
                   1 + count_list (sliceOf buffer (n + 1) pos) NEWLINE"
          using z ix by simp
        then show ?thesis using ih ix by simp
      qed
    qed
  qed
qed

lemma fastForward_lineOf:
  assumes "cls \<le> pos" and "cln = lineOf buffer cls" and "fastForward buffer pos cls cln = (cls', cln')"
  shows "cls' \<le> pos" and "cln' = lineOf buffer pos" and "cln' = lineOf buffer cls'"
proof -
  note s = fastForward_spec [OF assms(1,3)]
  show 0: "cls' \<le> pos" using s by simp
  show 1: "cln' = lineOf buffer pos" using s assms(2) lineOf_add [OF assms(1), of buffer] by simp
  show "cln' = lineOf buffer cls'" using 1 s lineOf_add [OF 0, of buffer] by simp
qed

lemma fastForward_mono: "fastForward buffer pos cls cln = (cls', cln') \<Longrightarrow> cln \<le> cln'"
proof (induction buffer pos cls cln rule: fastForward.induct)
  case (1 buffer pos cls cln)
  show ?case
  proof (cases "cls < pos \<and> (\<exists>n. indexOf buffer NEWLINE cls = Some n \<and> n < pos)")
    case True
    then obtain n where n: "indexOf buffer NEWLINE cls = Some n" "n < pos" by blast
    then have "fastForward buffer pos (n + 1) (cln + 1) = (cls', cln')"
      using "1.prems" True by (simp add: fastForward.simps [of buffer pos cls cln])
    then have "cln + 1 \<le> cln'" using "1.IH" [of n] True n by simp
    then show ?thesis by simp
  next
    case False
    then have "(cls', cln') = (cls, cln)"
      using "1.prems" by (auto simp: fastForward.simps [of buffer pos cls cln] split: option.splits if_splits)
    then show ?thesis by simp
  qed
qed

section \<open>Line numbers of the forward literal path\<close>

lemma map_fst_recordMatch:
  "map fst (recordMatch lms n c off) =
     (if n \<in> fst ` set lms then map fst lms else map fst lms @ [n])"
proof -
  have m: "map fst (map (\<lambda>(k, e). if k = n then (k, e\<lparr>lm_positions := lm_positions e @ [off]\<rparr>) else (k, e)) xs)
           = map fst xs" for xs :: lineMatches
    by (induction xs) auto
  have "map_of lms n = None \<longleftrightarrow> n \<notin> fst ` set lms"
    by (simp add: map_of_eq_None_iff)
  then show ?thesis
    unfolding recordMatch_def Let_def m by auto
qed

lemma recordMatch_numbers:
  "\<forall>(k, e)\<in>set lms. lm_lineNumber e = k \<Longrightarrow>
   \<forall>(k, e)\<in>set (recordMatch lms n c off). lm_lineNumber e = k"
  by (auto simp: recordMatch_def Let_def split: if_splits)

lemma keysOk_mono: "keysOk lms cln \<Longrightarrow> cln \<le> cln' \<Longrightarrow> keysOk lms cln'"
  by (fastforce simp: keysOk_def)

lemma keysOk_recordMatch: "keysOk lms cln \<Longrightarrow> keysOk (recordMatch lms cln c off) cln"
  unfolding keysOk_def
  using recordMatch_numbers [of lms cln c off]
  by (auto simp: map_fst_recordMatch sorted_append)

lemma literalLoop_keysOk:
  "keysOk lms cln \<Longrightarrow>
   \<exists>cln'. cln \<le> cln' \<and> keysOk (literalLoop buffer options patternLen ps cls cln lms) cln'"
proof (induction ps arbitrary: cls cln lms)
  case Nil
  then show ?case by auto
next
  case (Cons pos ps)
  obtain cls' cln' where ff: "fastForward buffer pos cls cln = (cls', cln')"
    by (cases "fastForward buffer pos cls cln") auto
  have le: "cln \<le> cln'" using fastForward_mono [OF ff] .
  have k: "keysOk lms cln'" using keysOk_mono [OF Cons.prems le] .
  define lms' where
    "lms' = recordMatch lms cln' (line_content (extractLineAt buffer pos))
              (pos - line_start (extractLineAt buffer pos))"
  have k': "keysOk lms' cln'" unfolding lms'_def using keysOk_recordMatch [OF k] .
  have skip: "\<exists>c. cln \<le> c \<and> keysOk (literalLoop buffer options patternLen ps cls' cln' lms) c"
    using Cons.IH [OF k, of cls'] le by (meson le_trans)
  have rec: "\<exists>c. cln \<le> c \<and> keysOk (literalLoop buffer options patternLen ps cls' cln' lms') c"
    using Cons.IH [OF k', of cls'] le by (meson le_trans)
  have stop: "\<exists>c. cln \<le> c \<and> keysOk lms' c" using k' le by blast
  show ?case
    using skip rec stop by (simp add: ff Let_def flip: lms'_def)
qed

lemma lineNumber_materialize:
  "\<forall>(k, e)\<in>set lms. lm_lineNumber e = k \<Longrightarrow> map lineNumber (materialize options lms) = map fst lms"
  by (induction lms) (auto simp: materialize_def)

lemma sorted_forward:
  "sorted (map lineNumber (materialize options (literalLoop buffer options patternLen ps cls cln [])))"
proof -
  have "keysOk [] cln" by (simp add: keysOk_def)
  then obtain c where "keysOk (literalLoop buffer options patternLen ps cls cln []) c"
    using literalLoop_keysOk by blast
  then show ?thesis
    using lineNumber_materialize [of _ options] by (simp add: keysOk_def)
qed

text \<open>When the positions ascend from the current line start, every key is the line of a
  position.\<close>

lemma literalLoop_keys_subset:
  "sorted ps \<Longrightarrow> \<forall>p\<in>set ps. cls \<le> p \<Longrightarrow> cln = lineOf buffer cls \<Longrightarrow>
   fst ` set (literalLoop buffer options patternLen ps cls cln lms) \<subseteq>
     fst ` set lms \<union> lineOf buffer ` set ps"
proof (induction ps arbitrary: cls cln lms)
  case Nil
  then show ?case by simp
next
  case (Cons pos ps)
  obtain cls' cln' where ff: "fastForward buffer pos cls cln = (cls', cln')"
    by (cases "fastForward buffer pos cls cln") auto
  have cp: "cls \<le> pos" using Cons.prems(2) by simp
  note fl = fastForward_lineOf [OF cp Cons.prems(3) ff]
  have s: "sorted ps" and b: "\<forall>p\<in>set ps. cls' \<le> p"
    using Cons.prems(1) fl(1) by auto
  define lms' where
    "lms' = recordMatch lms cln' (line_content (extractLineAt buffer pos))
              (pos - line_start (extractLineAt buffer pos))"
  have k': "fst ` set lms' \<subseteq> insert (lineOf buffer pos) (fst ` set lms)"
    using map_fst_recordMatch [of lms cln' "line_content (extractLineAt buffer pos)"
        "pos - line_start (extractLineAt buffer pos)"] fl(2)
    unfolding lms'_def [symmetric]
    by (metis (no_types, lifting) list.set_map set_append list.simps(15) empty_set
        Un_insert_right sup_bot.right_neutral subset_insertI subset_refl)
  have skip: "fst ` set (literalLoop buffer options patternLen ps cls' cln' lms)
              \<subseteq> fst ` set lms \<union> lineOf buffer ` set ps"
    using Cons.IH [OF s b fl(3)] .
  have rec: "fst ` set (literalLoop buffer options patternLen ps cls' cln' lms')
              \<subseteq> fst ` set lms' \<union> lineOf buffer ` set ps"
    using Cons.IH [OF s b fl(3)] .
  have "literalLoop buffer options patternLen (pos # ps) cls cln lms =
          literalLoop buffer options patternLen ps cls' cln' lms \<or>
        literalLoop buffer options patternLen (pos # ps) cls cln lms = lms' \<or>
        literalLoop buffer options patternLen (pos # ps) cls cln lms =
          literalLoop buffer options patternLen ps cls' cln' lms'"
    by (simp add: ff Let_def flip: lms'_def)
  moreover have "fst ` set lms \<union> lineOf buffer ` set ps \<subseteq> fst ` set lms \<union> lineOf buffer ` set (pos # ps)"
    by auto
  moreover have "fst ` set lms' \<subseteq> fst ` set lms \<union> lineOf buffer ` set (pos # ps)"
    using k' by auto
  moreover have "fst ` set lms' \<union> lineOf buffer ` set ps \<subseteq> fst ` set lms \<union> lineOf buffer ` set (pos # ps)"
    using k' by auto
  ultimately show ?case
    using skip rec by (elim disjE) (simp_all only: subset_trans)
qed

section \<open>The number of lines of a buffer\<close>

lemma lineOf_ge_1: "1 \<le> lineOf buffer p"
  by (simp add: lineOf_def)

lemma count_list_last: "xs \<noteq> [] \<Longrightarrow> last xs = v \<Longrightarrow> 1 \<le> count_list xs v"
  by (induction xs) (auto split: if_splits)

lemma lineOf_le_numLines: "p < length buffer \<Longrightarrow> lineOf buffer p \<le> numLines buffer"
proof -
  assume p: "p < length buffer"
  have ne: "drop p buffer \<noteq> []" "buffer \<noteq> []" using p by auto
  have c: "count_list buffer NEWLINE =
           count_list (take p buffer) NEWLINE + count_list (drop p buffer) NEWLINE"
    by (metis append_take_drop_id count_list_append)
  show ?thesis
  proof (cases "last buffer = NEWLINE")
    case True
    then have "last (drop p buffer) = NEWLINE" using p by simp
    then have "1 \<le> count_list (drop p buffer) NEWLINE" by (rule count_list_last [OF ne(1)])
    then show ?thesis using c by (simp add: lineOf_def numLines_def)
  next
    case False
    then show ?thesis using c ne by (simp add: lineOf_def numLines_def)
  qed
qed

lemma actualEndOf_facts:
  assumes "ls < length buffer"
  shows "ls \<le> actualEndOf buffer ls" and "actualEndOf buffer ls \<le> length buffer"
    and "count_list (sliceOf buffer ls (actualEndOf buffer ls)) NEWLINE = 0"
    and "actualEndOf buffer ls < length buffer \<Longrightarrow> buffer ! actualEndOf buffer ls = NEWLINE"
proof -
  show "ls \<le> actualEndOf buffer ls" using assms by (rule actualEndOf_ge)
  show "actualEndOf buffer ls \<le> length buffer"
    using indexOf_Some [of buffer NEWLINE ls] by (auto simp: actualEndOf_def split: option.splits)
  show "count_list (sliceOf buffer ls (actualEndOf buffer ls)) NEWLINE = 0"
  proof (cases "indexOf buffer NEWLINE ls")
    case None
    show ?thesis using indexOf_None [OF None] by (intro count_list_sliceOf_0) simp
  next
    case (Some n)
    show ?thesis
      using indexOf_Some [OF Some] by (intro count_list_sliceOf_0) (simp add: actualEndOf_def Some)
  qed
  show "actualEndOf buffer ls < length buffer \<Longrightarrow> buffer ! actualEndOf buffer ls = NEWLINE"
    using indexOf_Some [of buffer NEWLINE ls] by (auto simp: actualEndOf_def split: option.splits)
qed

lemma atLine_start: "atLine buffer 0 1"
  by (simp add: atLine_def lineOf_def)

lemma atLine_within:
  assumes "atLine buffer ls ln" and "ls < length buffer" and "ls \<le> p" and "p \<le> actualEndOf buffer ls"
  shows "lineOf buffer p = ln"
proof -
  have ln: "ln = lineOf buffer ls" using assms(1,2) by (auto simp: atLine_def)
  have "sliceOf buffer ls (actualEndOf buffer ls) =
        sliceOf buffer ls p @ sliceOf buffer p (actualEndOf buffer ls)"
    using assms(3,4) by (rule sliceOf_append)
  then have "count_list (sliceOf buffer ls p) NEWLINE = 0"
    using actualEndOf_facts(3) [OF assms(2)] by simp
  then show ?thesis using lineOf_add [OF assms(3), of buffer] ln by simp
qed

lemma atLine_le: "atLine buffer ls ln \<Longrightarrow> ls < length buffer \<Longrightarrow> ln \<le> numLines buffer"
  using lineOf_le_numLines [of ls buffer] by (auto simp: atLine_def)

lemma atLine_end:
  assumes "atLine buffer ls ln" and "\<not> ls < length buffer"
  shows "numLines buffer < ln"
proof (cases "length buffer < ls")
  case True
  then show ?thesis using assms(1) by (auto simp: atLine_def)
next
  case False
  then have e: "ls = length buffer" using assms(2) by simp
  then have ln: "ln = 1 + count_list buffer NEWLINE" and z: "ls = 0 \<or> buffer ! (ls - 1) = NEWLINE"
    using assms(1) by (auto simp: atLine_def lineOf_def)
  have "buffer \<noteq> [] \<Longrightarrow> last buffer = NEWLINE"
    using z e by (auto simp: last_conv_nth)
  then show ?thesis using ln by (auto simp: numLines_def)
qed

lemma atLine_next:
  assumes "atLine buffer ls ln" and "ls < length buffer"
  shows "atLine buffer (actualEndOf buffer ls + 1) (ln + 1)"
proof -
  define ae where "ae = actualEndOf buffer ls"
  note f = actualEndOf_facts [OF assms(2), folded ae_def]
  have la: "lineOf buffer ae = ln"
    using atLine_within [OF assms(1,2) f(1)] by (simp add: ae_def)
  show ?thesis
  proof (cases "ae < length buffer")
    case True
    have "sliceOf buffer ae (ae + 1) = [buffer ! ae]"
      using True by (simp add: sliceOf_def take_Suc_conv_app_nth Cons_nth_drop_Suc [symmetric])
    then have "lineOf buffer (ae + 1) = ln + 1"
      using lineOf_add [of ae "ae + 1" buffer] la f(4) [OF True] by simp
    then show ?thesis using True f(4) [OF True] by (simp add: atLine_def flip: ae_def)
  next
    case False
    then have e: "ae = length buffer" using f(2) by simp
    have c: "ln = 1 + count_list buffer NEWLINE" using la e by (simp add: lineOf_def)
    have "sliceOf buffer ls ae = drop ls buffer" using e by (simp add: sliceOf_def)
    then have "NEWLINE \<notin> set (drop ls buffer)" using f(3) by (simp add: count_list_0_iff)
    moreover have "last buffer \<in> set (drop ls buffer)"
      using assms(2) by (metis drop_eq_Nil last_drop last_in_set not_le)
    ultimately have "last buffer \<noteq> NEWLINE" by metis
    then have "numLines buffer = ln" using c assms(2) by (auto simp: numLines_def)
    then show ?thesis using e by (simp add: atLine_def flip: ae_def)
  qed
qed

section \<open>Line numbers of the invert mode\<close>

lemma invertCollect_unfold:
  "invertCollect buffer options ms ls ln mc results =
     (if ls < length buffer then
        (if ln \<notin> ms then
           (if maxCount options > 0 \<and> mc + 1 \<ge> maxCount options
            then results @ [\<lparr>lineNumber = ln,
                             content = decode (sliceOf buffer ls (actualEndOf buffer ls)),
                             matches = None\<rparr>]
            else invertCollect buffer options ms (actualEndOf buffer ls + 1) (ln + 1) (mc + 1)
                   (results @ [\<lparr>lineNumber = ln,
                                 content = decode (sliceOf buffer ls (actualEndOf buffer ls)),
                                 matches = None\<rparr>]))
         else invertCollect buffer options ms (actualEndOf buffer ls + 1) (ln + 1) mc results)
      else results)"
  by (subst invertCollect.simps) (simp add: Let_def)

lemma invertCollect_done:
  "\<not> ls < length buffer \<Longrightarrow> invertCollect buffer options ms ls ln mc results = results"
  by (subst invertCollect_unfold) simp

lemma invertCollect_skip:
  "ls < length buffer \<Longrightarrow> ln \<in> ms \<Longrightarrow>
   invertCollect buffer options ms ls ln mc results =
     invertCollect buffer options ms (actualEndOf buffer ls + 1) (ln + 1) mc results"
  by (subst invertCollect_unfold) simp

lemma invertCollect_stop:
  "ls < length buffer \<Longrightarrow> ln \<notin> ms \<Longrightarrow> maxCount options > 0 \<and> mc + 1 \<ge> maxCount options \<Longrightarrow>
   invertCollect buffer options ms ls ln mc results =
     results @ [\<lparr>lineNumber = ln, content = decode (sliceOf buffer ls (actualEndOf buffer ls)),
                 matches = None\<rparr>]"
  by (subst invertCollect_unfold) simp

lemma invertCollect_emit:
  "ls < length buffer \<Longrightarrow> ln \<notin> ms \<Longrightarrow> \<not> (maxCount options > 0 \<and> mc + 1 \<ge> maxCount options) \<Longrightarrow>
   invertCollect buffer options ms ls ln mc results =
     invertCollect buffer options ms (actualEndOf buffer ls + 1) (ln + 1) (mc + 1)
       (results @ [\<lparr>lineNumber = ln, content = decode (sliceOf buffer ls (actualEndOf buffer ls)),
                    matches = None\<rparr>])"
  by (subst invertCollect_unfold) auto

lemma invertCollect_sorted:
  "sorted (map lineNumber results) \<Longrightarrow> \<forall>r\<in>set results. lineNumber r < ln \<Longrightarrow>
   sorted (map lineNumber (invertCollect buffer options ms ls ln mc results))"
proof (induction buffer options ms ls ln mc results rule: invertCollect.induct)
  case (1 buffer options ms ls ln mc results)
  let ?r = "\<lparr>lineNumber = ln, content = decode (sliceOf buffer ls (actualEndOf buffer ls)),
             matches = None\<rparr>"
  have s': "sorted (map lineNumber (results @ [?r]))"
    using "1.prems" by (auto simp: sorted_append less_imp_le)
  have b': "\<forall>x\<in>set (results @ [?r]). lineNumber x < ln + 1"
    using "1.prems"(2) by (auto simp: less_SucI)
  have b: "\<forall>x\<in>set results. lineNumber x < ln + 1"
    using "1.prems"(2) by (auto simp: less_SucI)
  show ?case
  proof (cases "ls < length buffer")
    case False
    show ?thesis unfolding invertCollect_done [OF False] using "1.prems" by simp
  next
    case True
    show ?thesis
    proof (cases "ln \<in> ms")
      case in_ms: True
      show ?thesis
        unfolding invertCollect_skip [OF True in_ms]
        using "1.IH"(2) [OF True refl _ "1.prems"(1) b] in_ms by simp
    next
      case False
      show ?thesis
      proof (cases "maxCount options > 0 \<and> mc + 1 \<ge> maxCount options")
        case stop: True
        show ?thesis unfolding invertCollect_stop [OF True False stop] using s' .
      next
        case go: False
        show ?thesis
          unfolding invertCollect_emit [OF True False go]
          using "1.IH"(1) [OF True refl False refl refl go s' b'] .
      qed
    qed
  qed
qed

lemma invertCollect_bound:
  "atLine buffer ls ln \<Longrightarrow> \<forall>r\<in>set results. lineNumber r \<le> numLines buffer \<Longrightarrow>
   \<forall>r\<in>set (invertCollect buffer options ms ls ln mc results). lineNumber r \<le> numLines buffer"
proof (induction buffer options ms ls ln mc results rule: invertCollect.induct)
  case (1 buffer options ms ls ln mc results)
  let ?r = "\<lparr>lineNumber = ln, content = decode (sliceOf buffer ls (actualEndOf buffer ls)),
             matches = None\<rparr>"
  show ?case
  proof (cases "ls < length buffer")
    case False
    show ?thesis unfolding invertCollect_done [OF False] using "1.prems" by simp
  next
    case True
    note nx = atLine_next [OF "1.prems"(1) True]
    have b': "\<forall>x\<in>set (results @ [?r]). lineNumber x \<le> numLines buffer"
      using "1.prems"(2) atLine_le [OF "1.prems"(1) True] by auto
    show ?thesis
    proof (cases "ln \<in> ms")
      case in_ms: True
      show ?thesis
        unfolding invertCollect_skip [OF True in_ms]
        using "1.IH"(2) [OF True refl _ nx "1.prems"(2)] in_ms by simp
    next
      case False
      show ?thesis
      proof (cases "maxCount options > 0 \<and> mc + 1 \<ge> maxCount options")
        case stop: True
        show ?thesis unfolding invertCollect_stop [OF True False stop] using b' .
      next
        case go: False
        show ?thesis
          unfolding invertCollect_emit [OF True False go]
          using "1.IH"(1) [OF True refl False refl refl go nx b'] .
      qed
    qed
  qed
qed

lemma invertCollect_exact:
  "maxCount options = 0 \<Longrightarrow> atLine buffer ls ln \<Longrightarrow>
   lineNumber ` set (invertCollect buffer options ms ls ln mc results) =
     lineNumber ` set results \<union> {l. ln \<le> l \<and> l \<le> numLines buffer \<and> l \<notin> ms}"
proof (induction buffer options ms ls ln mc results rule: invertCollect.induct)
  case (1 buffer options ms ls ln mc results)
  let ?r = "\<lparr>lineNumber = ln, content = decode (sliceOf buffer ls (actualEndOf buffer ls)),
             matches = None\<rparr>"
  show ?case
  proof (cases "ls < length buffer")
    case False
    have emp: "{l. ln \<le> l \<and> l \<le> numLines buffer \<and> l \<notin> ms} = {}"
      using atLine_end [OF "1.prems"(2) False] by auto
    show ?thesis unfolding invertCollect_done [OF False] emp by simp
  next
    case True
    note nx = atLine_next [OF "1.prems"(2) True]
    have le: "ln \<le> numLines buffer" using atLine_le [OF "1.prems"(2) True] .
    have go: "\<not> (maxCount options > 0 \<and> mc + 1 \<ge> maxCount options)" using "1.prems"(1) by simp
    have split: "{l. ln \<le> l \<and> l \<le> numLines buffer \<and> l \<notin> ms} =
                 (if ln \<in> ms then {} else {ln}) \<union> {l. ln + 1 \<le> l \<and> l \<le> numLines buffer \<and> l \<notin> ms}"
      using le by (auto simp: Suc_le_eq le_less)
    show ?thesis
    proof (cases "ln \<in> ms")
      case in_ms: True
      have "lineNumber ` set (invertCollect buffer options ms (actualEndOf buffer ls + 1) (ln + 1) mc results)
            = lineNumber ` set results \<union> {l. ln + 1 \<le> l \<and> l \<le> numLines buffer \<and> l \<notin> ms}"
        using "1.IH"(2) [OF True refl _ "1.prems"(1) nx] in_ms by simp
      then show ?thesis
        unfolding invertCollect_skip [OF True in_ms] split using in_ms by simp
    next
      case False
      have "lineNumber ` set (invertCollect buffer options ms (actualEndOf buffer ls + 1)
                 (ln + 1) (mc + 1) (results @ [?r]))
            = lineNumber ` set (results @ [?r]) \<union> {l. ln + 1 \<le> l \<and> l \<le> numLines buffer \<and> l \<notin> ms}"
        using "1.IH"(1) [OF True refl False refl refl go "1.prems"(1) nx] .
      then show ?thesis
        unfolding invertCollect_emit [OF True False go] split using False by auto
    qed
  qed
qed

section \<open>The first pass of the invert mode\<close>

lemma invertInner_eq:
  "invertInner mp ls ae ln posIdx ms =
     (posIdx + length (takeWhile (\<lambda>p. p < ae) (drop posIdx mp)),
      ms \<union> (if \<exists>p\<in>set (takeWhile (\<lambda>p. p < ae) (drop posIdx mp)). ls \<le> p then {ln} else {}))"
proof (induction mp ls ae ln posIdx ms rule: invertInner.induct)
  case (1 mp ls ae ln posIdx ms)
  show ?case
  proof (cases "posIdx < length mp \<and> mp ! posIdx < ae")
    case False
    then have "takeWhile (\<lambda>p. p < ae) (drop posIdx mp) = []"
      by (cases "posIdx < length mp") (simp_all add: takeWhile_eq_Nil_iff hd_drop_conv_nth)
    then show ?thesis using False by (subst invertInner.simps) auto
  next
    case True
    have d: "drop posIdx mp = mp ! posIdx # drop (posIdx + 1) mp"
      using True by (simp add: Cons_nth_drop_Suc)
    have "invertInner mp ls ae ln posIdx ms =
          invertInner mp ls ae ln (posIdx + 1)
            (if mp ! posIdx \<ge> ls then insert ln ms else ms)"
      using True by (subst invertInner.simps) simp
    also have "\<dots> = (posIdx + 1 + length (takeWhile (\<lambda>p. p < ae) (drop (posIdx + 1) mp)),
        (if mp ! posIdx \<ge> ls then insert ln ms else ms) \<union>
        (if \<exists>p\<in>set (takeWhile (\<lambda>p. p < ae) (drop (posIdx + 1) mp)). ls \<le> p then {ln} else {}))"
      using "1.IH" [OF True] .
    finally show ?thesis using True unfolding d by auto
  qed
qed

lemma invertMark_unfold:
  "invertMark buffer mp ls ln posIdx ms =
     (if ls < length buffer \<and> posIdx < length mp then
        invertMark buffer mp (actualEndOf buffer ls + 1) (ln + 1)
          (fst (invertInner mp ls (actualEndOf buffer ls) ln posIdx ms))
          (snd (invertInner mp ls (actualEndOf buffer ls) ln posIdx ms))
      else ms)"
  by (subst invertMark.simps) (simp add: Let_def split: prod.splits)

lemma invertMark_exact:
  "sorted mp \<Longrightarrow> \<forall>p\<in>set mp. p < length buffer \<and> buffer ! p \<noteq> NEWLINE \<Longrightarrow>
   atLine buffer ls ln \<Longrightarrow> \<forall>p\<in>set (drop posIdx mp). ls \<le> p \<Longrightarrow>
   invertMark buffer mp ls ln posIdx ms = ms \<union> lineOf buffer ` set (drop posIdx mp)"
proof (induction buffer mp ls ln posIdx ms rule: invertMark.induct)
  case (1 buffer mp ls ln posIdx ms)
  show ?case
  proof (cases "ls < length buffer \<and> posIdx < length mp")
    case False
    have "drop posIdx mp = []"
    proof (cases "posIdx < length mp")
      case True
      then have "mp ! posIdx \<in> set (drop posIdx mp)" and "mp ! posIdx \<in> set mp"
        by (simp_all add: Cons_nth_drop_Suc [symmetric])
      then have "ls \<le> mp ! posIdx" "mp ! posIdx < length buffer"
        using "1.prems"(2,4) by blast+
      then show ?thesis using False True by simp
    next
      case False
      then show ?thesis by simp
    qed
    then show ?thesis using False by (subst invertMark_unfold) simp
  next
    case True
    then have lt: "ls < length buffer" by simp
    define ae where "ae = actualEndOf buffer ls"
    define rest where "rest = drop posIdx mp"
    define consumed where "consumed = takeWhile (\<lambda>p. p < ae) rest"
    define remaining where "remaining = dropWhile (\<lambda>p. p < ae) rest"
    define posIdx' where "posIdx' = posIdx + length consumed"
    define ms' where "ms' = ms \<union> (if \<exists>p\<in>set consumed. ls \<le> p then {ln} else {})"
    have inner: "invertInner mp ls ae ln posIdx ms = (posIdx', ms')"
      by (simp add: invertInner_eq posIdx'_def ms'_def consumed_def rest_def)
    have rem: "drop posIdx' mp = remaining"
      unfolding posIdx'_def remaining_def consumed_def rest_def
      by (metis add.commute drop_drop dropWhile_eq_drop)
    have sr: "sorted rest" using "1.prems"(1) by (simp add: rest_def sorted_wrt_drop)
    have rest_set: "set rest = set consumed \<union> set remaining"
      unfolding consumed_def remaining_def by (metis set_append takeWhile_dropWhile_id)
    have in_mp: "set rest \<subseteq> set mp" unfolding rest_def by (rule set_drop_subset)
    note f = actualEndOf_facts [OF lt, folded ae_def]
    have cons_line: "lineOf buffer p = ln" if "p \<in> set consumed" for p
    proof -
      have "p < ae" using that unfolding consumed_def by (meson set_takeWhileD)
      moreover have "ls \<le> p" using that "1.prems"(4) rest_set by (auto simp: rest_def)
      ultimately show ?thesis
        using atLine_within [OF "1.prems"(3) lt, of p] by (simp add: ae_def)
    qed
    have ms'_eq: "ms' = ms \<union> lineOf buffer ` set consumed"
    proof (cases "consumed = []")
      case True
      then show ?thesis by (simp add: ms'_def)
    next
      case False
      then obtain p where p: "p \<in> set consumed" by (cases consumed) auto
      then have "ls \<le> p" using "1.prems"(4) rest_set by (auto simp: rest_def)
      then have "ms' = insert ln ms" using p by (auto simp: ms'_def)
      moreover have "lineOf buffer ` set consumed = {ln}" using cons_line p by auto
      ultimately show ?thesis by simp
    qed
    have rem_ge: "ae + 1 \<le> p" if "p \<in> set remaining" for p
    proof -
      have "ae \<le> p"
      proof (cases remaining)
        case Nil
        then show ?thesis using that by simp
      next
        case (Cons q qs)
        have "\<not> q < ae" using Cons unfolding remaining_def by (metis dropWhile_eq_Cons_conv)
        moreover have "sorted remaining"
          using sr unfolding remaining_def by (simp add: sorted_dropWhile)
        then have "q \<le> p" using that Cons by auto
        ultimately show ?thesis by simp
      qed
      moreover have pm: "p < length buffer \<and> buffer ! p \<noteq> NEWLINE"
        using that rest_set in_mp "1.prems"(2) by blast
      moreover have "ae < length buffer \<Longrightarrow> buffer ! ae = NEWLINE" using f(4) .
      ultimately show ?thesis by (metis Suc_eq_plus1 Suc_leI le_neq_implies_less le_less_trans)
    qed
    have ih: "invertMark buffer mp (ae + 1) (ln + 1) posIdx' ms' =
              ms' \<union> lineOf buffer ` set (drop posIdx' mp)"
      using "1.IH" [OF True ae_def inner [symmetric] "1.prems"(1,2)
          atLine_next [OF "1.prems"(3) lt, folded ae_def]] rem rem_ge
      by blast
    have "invertMark buffer mp ls ln posIdx ms = invertMark buffer mp (ae + 1) (ln + 1) posIdx' ms'"
      using True inner by (subst invertMark_unfold) (simp add: ae_def)
    also have "\<dots> = ms \<union> lineOf buffer ` set consumed \<union> lineOf buffer ` set remaining"
      using ih rem ms'_eq by simp
    also have "\<dots> = ms \<union> lineOf buffer ` set rest" using rest_set by auto
    finally show ?thesis by (simp add: rest_def)
  qed
qed

section \<open>The positions handed to the aggregator\<close>

lemma toLowerAscii_NEWLINE: "toLowerAscii b = NEWLINE \<longleftrightarrow> b = NEWLINE"
proof -
  have "65 \<le> b \<Longrightarrow> b \<le> 90 \<Longrightarrow> b + 32 \<noteq> 10"
    by (simp add: word_le_nat_alt unat_word_ariths word_eq_iff_unsigned [where ?'a = nat])
  then show ?thesis by (auto simp: toLowerAscii_def NEWLINE_def)
qed

lemma sorted_filter_upt: "sorted (filter P [0..<n])"
  by (simp add: sorted_wrt_filter)

lemma positions_Nil: "encode (pattern options) = [] \<Longrightarrow> positions buffer options = []"
  by (simp add: positions_def findPatternPositions_def findPatternPositionsIgnoreCase_def)

lemma positions_sorted: "sorted (positions buffer options)"
proof (cases "encode (pattern options) = []")
  case True
  then show ?thesis by (simp add: positions_Nil)
next
  case False
  then show ?thesis
    by (simp add: positions_def findPatternPositions_spec findPatternPositionsIgnoreCase_spec
        sorted_filter_upt)
qed

lemma positions_bound: "p \<in> set (positions buffer options) \<Longrightarrow> p < length buffer"
proof (cases "encode (pattern options) = []")
  case True
  then show "p \<in> set (positions buffer options) \<Longrightarrow> p < length buffer"
    by (simp add: positions_Nil)
next
  case False
  then show "p \<in> set (positions buffer options) \<Longrightarrow> p < length buffer"
    by (simp add: positions_def findPatternPositions_spec findPatternPositionsIgnoreCase_spec
        split: if_splits)
qed

lemma positions_not_newline:
  assumes "encode (pattern options) \<noteq> [] \<longrightarrow> hd (encode (pattern options)) \<noteq> NEWLINE"
    and "p \<in> set (positions buffer options)"
  shows "buffer ! p \<noteq> NEWLINE"
proof (cases "encode (pattern options) = []")
  case True
  then show ?thesis using assms(2) by (simp add: positions_Nil)
next
  case False
  define pat where "pat = encode (pattern options)"
  have ne: "pat \<noteq> []" and hd: "hd pat \<noteq> NEWLINE" using False assms(1) by (simp_all add: pat_def)
  have pl: "p < length buffer" using assms(2) by (rule positions_bound)
  have hd_take: "hd (take (length pat) (drop p buffer)) = buffer ! p"
    using pl ne by (cases pat) (simp_all add: hd_drop_conv_nth)
  show ?thesis
  proof (cases "ignoreCase options")
    case True
    then have "map toLowerAscii (take (length pat) (drop p buffer)) = map toLowerAscii pat"
      using assms(2) ne by (simp add: positions_def findPatternPositionsIgnoreCase_spec flip: pat_def)
    then have "hd (map toLowerAscii (take (length pat) (drop p buffer))) = hd (map toLowerAscii pat)"
      by simp
    moreover have "take (length pat) (drop p buffer) \<noteq> []" using pl ne by simp
    ultimately have "toLowerAscii (buffer ! p) = toLowerAscii (hd pat)"
      using ne hd_take by (simp add: hd_map)
    then show ?thesis using hd toLowerAscii_NEWLINE by metis
  next
    case False
    then have "take (length pat) (drop p buffer) = pat"
      using assms(2) ne by (simp add: positions_def findPatternPositions_spec flip: pat_def)
    then show ?thesis using hd hd_take by metis
  qed
qed

lemma literalLoop_keys_exact:
  "\<not> wholeWord options \<Longrightarrow> \<not> lineRegexp options \<Longrightarrow> maxCount options = 0 \<Longrightarrow>
   sorted ps \<Longrightarrow> \<forall>p\<in>set ps. cls \<le> p \<Longrightarrow> cln = lineOf buffer cls \<Longrightarrow>
   fst ` set (literalLoop buffer options patternLen ps cls cln lms) =
     fst ` set lms \<union> lineOf buffer ` set ps"
proof (induction ps arbitrary: cls cln lms)
  case Nil
  then show ?case by simp
next
  case (Cons pos ps)
  obtain cls' cln' where ff: "fastForward buffer pos cls cln = (cls', cln')"
    by (cases "fastForward buffer pos cls cln") auto
  have cp: "cls \<le> pos" using Cons.prems(5) by simp
  note fl = fastForward_lineOf [OF cp Cons.prems(6) ff]
  have s: "sorted ps" and b: "\<forall>p\<in>set ps. cls' \<le> p"
    using Cons.prems(4) fl(1) by auto
  define lms' where
    "lms' = recordMatch lms cln' (line_content (extractLineAt buffer pos))
              (pos - line_start (extractLineAt buffer pos))"
  have "set (map fst lms') = insert (lineOf buffer pos) (set (map fst lms))"
    unfolding lms'_def map_fst_recordMatch fl(2) by auto
  then have k': "fst ` set lms' = insert (lineOf buffer pos) (fst ` set lms)" by simp
  have "literalLoop buffer options patternLen (pos # ps) cls cln lms =
        literalLoop buffer options patternLen ps cls' cln' lms'"
    using Cons.prems(1,2,3) by (simp add: ff Let_def flip: lms'_def)
  then show ?case
    using Cons.IH [OF Cons.prems(1,2,3) s b fl(3), of lms'] k' by auto
qed

section \<open>Invert mode and forward mode\<close>

lemma grepBufferLiteral_forward:
  "\<not> invertMatch options \<Longrightarrow>
   grepBufferLiteral buffer options =
     materialize options
       (literalLoop buffer options (length (encode (pattern options))) (positions buffer options) 0 1 [])"
  by (simp add: grepBufferLiteral_def positions_def Let_def)

lemma grepBufferLiteral_invert:
  "invertMatch options \<Longrightarrow>
   grepBufferLiteral buffer options =
     invertCollect buffer options (invertMark buffer (positions buffer options) 0 1 0 {}) 0 1 0 []"
  by (simp add: grepBufferLiteral_def grepBufferInvert_def positions_def Let_def)

lemma forward_lineNumbers:
  assumes "\<not> invertMatch options" and "\<not> wholeWord options" and "\<not> lineRegexp options"
    and "maxCount options = 0"
  shows "lineNumber ` set (grepBufferLiteral buffer options) =
         lineOf buffer ` set (positions buffer options)"
proof -
  define lms where
    "lms = literalLoop buffer options (length (encode (pattern options))) (positions buffer options) 0 1 []"
  have "keysOk [] 1" by (simp add: keysOk_def)
  then obtain c where "keysOk lms c" unfolding lms_def using literalLoop_keysOk by blast
  then have "map lineNumber (materialize options lms) = map fst lms"
    using lineNumber_materialize by (simp add: keysOk_def)
  then have "lineNumber ` set (materialize options lms) = fst ` set lms"
    by (metis list.set_map)
  moreover have "fst ` set lms = fst ` set ([] :: lineMatches) \<union> lineOf buffer ` set (positions buffer options)"
    unfolding lms_def
    by (rule literalLoop_keys_exact [OF assms(2,3,4) positions_sorted]) (simp_all add: lineOf_def)
  ultimately show ?thesis
    unfolding grepBufferLiteral_forward [OF assms(1)] lms_def by simp
qed

lemma invert_lineNumbers:
  assumes "invertMatch options" and "maxCount options = 0"
    and "encode (pattern options) \<noteq> [] \<longrightarrow> hd (encode (pattern options)) \<noteq> NEWLINE"
  shows "lineNumber ` set (grepBufferLiteral buffer options) =
         {1..numLines buffer} - lineOf buffer ` set (positions buffer options)"
proof -
  have "\<forall>p\<in>set (positions buffer options). p < length buffer \<and> buffer ! p \<noteq> NEWLINE"
    using positions_bound positions_not_newline [OF assms(3)] by blast
  then have "invertMark buffer (positions buffer options) 0 1 0 {} =
             {} \<union> lineOf buffer ` set (drop 0 (positions buffer options))"
    by (intro invertMark_exact positions_sorted atLine_start) simp_all
  then show ?thesis
    unfolding grepBufferLiteral_invert [OF assms(1)] invertCollect_exact [OF assms(2) atLine_start]
    by auto
qed

theorem invert_complement_counterexample:
  "grepBufferLiteral (bytes ''a\<newline>b\<newline>'') ((literalOptions ''\<newline>b'')\<lparr>invertMatch := True\<rparr>) =
     [\<lparr>lineNumber = 1, content = js ''a'', matches = None\<rparr>,
      \<lparr>lineNumber = 2, content = js ''b'', matches = None\<rparr>] \<and>
   grepBufferLiteral (bytes ''a\<newline>b\<newline>'') (literalOptions ''\<newline>b'') =
     [\<lparr>lineNumber = 1, content = js ''a'', matches = None\<rparr>] \<and>
   lineNumber ` set (grepBufferLiteral (bytes ''a\<newline>b\<newline>'')
                       ((literalOptions ''\<newline>b'')\<lparr>invertMatch := True\<rparr>)) \<noteq>
   {1..2} - lineNumber ` set (grepBufferLiteral (bytes ''a\<newline>b\<newline>'') (literalOptions ''\<newline>b''))"
proof -
  have i: "grepBufferLiteral (bytes ''a\<newline>b\<newline>'') ((literalOptions ''\<newline>b'')\<lparr>invertMatch := True\<rparr>) =
     [\<lparr>lineNumber = 1, content = js ''a'', matches = None\<rparr>,
      \<lparr>lineNumber = 2, content = js ''b'', matches = None\<rparr>]"
    by (simp add: scan_eval)
  have f: "grepBufferLiteral (bytes ''a\<newline>b\<newline>'') (literalOptions ''\<newline>b'') =
     [\<lparr>lineNumber = 1, content = js ''a'', matches = None\<rparr>]"
    by (simp add: scan_eval)
  have "(1::nat) \<in> {1, 2}" by simp
  moreover have "(1::nat) \<notin> {1..2} - {1}" by simp
  ultimately have "{1, 2} \<noteq> {1..2} - {1::nat}" by metis
  then show ?thesis unfolding i f by simp
qed

text \<open>
  Claim C4, as amended. For every buffer and every literal pattern whose first byte is
  not the newline byte, with \<open>maxCount = 0\<close>: the line numbers returned with
  \<open>invertMatch\<close> set, whatever \<open>wholeWord\<close> and \<open>lineRegexp\<close> are, are exactly the line numbers
  of the buffer (1 to the number of its lines, a last line without newline included) that
  are not returned with \<open>invertMatch\<close>, \<open>wholeWord\<close> and \<open>lineRegexp\<close> unset.
\<close>

theorem invert_complement:
  assumes "maxCount options = 0"
    and "encode (pattern options) \<noteq> [] \<longrightarrow> hd (encode (pattern options)) \<noteq> NEWLINE"
  shows "lineNumber ` set (grepBufferLiteral buffer
           (options\<lparr>invertMatch := True, wholeWord := w, lineRegexp := l\<rparr>)) =
         {1..numLines buffer} -
         lineNumber ` set (grepBufferLiteral buffer
           (options\<lparr>invertMatch := False, wholeWord := False, lineRegexp := False\<rparr>))"
proof -
  let ?i = "options\<lparr>invertMatch := True, wholeWord := w, lineRegexp := l\<rparr>"
  let ?f = "options\<lparr>invertMatch := False, wholeWord := False, lineRegexp := False\<rparr>"
  have p: "positions buffer ?i = positions buffer options" "positions buffer ?f = positions buffer options"
    by (simp_all add: positions_def)
  have "lineNumber ` set (grepBufferLiteral buffer ?i) =
        {1..numLines buffer} - lineOf buffer ` set (positions buffer ?i)"
    using assms by (intro invert_lineNumbers) simp_all
  moreover have "lineNumber ` set (grepBufferLiteral buffer ?f) =
        lineOf buffer ` set (positions buffer ?f)"
    using assms by (intro forward_lineNumbers) simp_all
  ultimately show ?thesis unfolding p by simp
qed

theorem invert_complement_witness:
  "maxCount (literalOptions ''b'') = 0 \<and>
   encode (pattern (literalOptions ''b'')) \<noteq> [] \<and>
   hd (encode (pattern (literalOptions ''b''))) \<noteq> NEWLINE \<and>
   numLines (bytes ''a\<newline>b\<newline>c'') = 3 \<and>
   lineNumber ` set (grepBufferLiteral (bytes ''a\<newline>b\<newline>c'')
       ((literalOptions ''b'')\<lparr>invertMatch := True, wholeWord := True, lineRegexp := True\<rparr>)) =
   {1..3} - lineNumber ` set (grepBufferLiteral (bytes ''a\<newline>b\<newline>c'')
       ((literalOptions ''b'')\<lparr>invertMatch := False, wholeWord := False, lineRegexp := False\<rparr>))"
proof -
  have m: "maxCount (literalOptions ''b'') = 0" by (simp add: literalOptions_def)
  have e: "encode (pattern (literalOptions ''b'')) \<noteq> [] \<longrightarrow>
           hd (encode (pattern (literalOptions ''b''))) \<noteq> NEWLINE"
    by (simp add: literalOptions_def js_def encode_ascii NEWLINE_def)
  have n: "numLines (bytes ''a\<newline>b\<newline>c'') = 3" by (simp add: numLines_def bytes_def NEWLINE_def)
  have e': "encode (pattern (literalOptions ''b'')) \<noteq> []"
    "hd (encode (pattern (literalOptions ''b''))) \<noteq> NEWLINE"
    by (simp_all add: literalOptions_def js_def encode_ascii NEWLINE_def)
  show ?thesis
    using invert_complement [OF m e, of "bytes ''a\<newline>b\<newline>c''" True True] m e' n by simp
qed

section \<open>Newlines through the decoder\<close>

lemma unat_NEWLINE: "unat b = 10 \<longleftrightarrow> b = NEWLINE"
  unfolding NEWLINE_def by (simp add: word_unat_eq_iff)

lemma mod_between: "n * q < x \<Longrightarrow> x < n * Suc q \<Longrightarrow> 1 \<le> x mod (n :: nat)"
proof -
  assume a: "n * q < x" "x < n * Suc q"
  then have "x div n = q" by (intro div_nat_eqI) simp_all
  then have "x mod n = x - n * q" by (metis minus_mult_div_eq_mod)
  then show ?thesis using a by simp
qed

lemma decoderOk_idle: "decoderOk 0 0 0 0x80 0xBF"
  by (simp add: decoderOk_def)

lemma decoderOk_lead2: "0xC2 \<le> x \<and> x \<le> 0xDF \<Longrightarrow> decoderOk (x mod 32) 0 1 0x80 0xBF"
  using mod_between [of 32 6 x] by (simp add: decoderOk_def)

lemma decoderOk_lead3:
  "0xE0 \<le> x \<and> x \<le> 0xEF \<Longrightarrow>
   decoderOk (x mod 16) 0 2 (if x = 0xE0 then 0xA0 else 0x80) (if x = 0xED then 0x9F else 0xBF)"
  using mod_between [of 16 14 x] by (cases "x = 0xE0") (simp_all add: decoderOk_def)

lemma decoderOk_lead4:
  "0xF0 \<le> x \<and> x \<le> 0xF4 \<Longrightarrow>
   decoderOk (x mod 8) 0 3 (if x = 0xF0 then 0x90 else 0x80) (if x = 0xF4 then 0x8F else 0xBF)"
  using mod_between [of 8 30 x] by (cases "x = 0xF0") (simp_all add: decoderOk_def)

lemma decoderOk_cont:
  assumes "decoderOk cp seen needed lo hi" and "needed \<noteq> 0" and "lo \<le> x" and "x \<le> hi"
  shows "seen + 1 \<noteq> needed \<Longrightarrow> decoderOk (cp * 64 + x mod 64) (seen + 1) needed 0x80 0xBF"
    and "seen + 1 = needed \<Longrightarrow> cp * 64 + x mod 64 \<noteq> 10"
    and "x \<noteq> 10"
proof -
  have b: "0x80 \<le> lo" "hi \<le> 0xBF" "seen < needed" "1 \<le> cp \<or> (seen + 1 < needed \<and> 0x90 \<le> lo)"
    using assms(1,2) by (auto simp: decoderOk_def)
  show "x \<noteq> 10" using b(1) assms(3) by simp
  have m: "0x90 \<le> lo \<Longrightarrow> 1 \<le> x mod 64"
  proof -
    assume "0x90 \<le> lo"
    then have "0x90 \<le> x" "x \<le> 0xBF" using assms(3,4) b(2) by simp_all
    then show ?thesis using mod_between [of 64 2 x] by simp
  qed
  have c: "1 \<le> cp * 64 + x mod 64" using b(4) m by auto
  show "seen + 1 \<noteq> needed \<Longrightarrow> decoderOk (cp * 64 + x mod 64) (seen + 1) needed 0x80 0xBF"
    using b(3) c by (simp add: decoderOk_def)
  show "seen + 1 = needed \<Longrightarrow> cp * 64 + x mod 64 \<noteq> 10"
  proof -
    assume "seen + 1 = needed"
    then have "1 \<le> cp" using b(4) by auto
    then have "64 \<le> cp * 64 + x mod 64" by simp
    then show ?thesis by simp
  qed
qed

declare utf8_run.simps [simp del]

lemma utf8_run_Nil: "utf8_run cp seen needed lo hi [] = (if needed \<noteq> 0 then [0xFFFD] else [])"
  by (simp only: utf8_run.simps)

lemma utf8_run_ascii_byte:
  "needed = 0 \<Longrightarrow> unat b \<le> 0x7F \<Longrightarrow>
   utf8_run cp seen needed lo hi (b # bs) = unat b # utf8_run 0 0 0 0x80 0xBF bs"
  by (simp only: utf8_run.simps if_True simp_thms cong: if_weak_cong)

lemma utf8_run_lead2:
  "needed = 0 \<Longrightarrow> \<not> unat b \<le> 0x7F \<Longrightarrow> 0xC2 \<le> unat b \<and> unat b \<le> 0xDF \<Longrightarrow>
   utf8_run cp seen needed lo hi (b # bs) = utf8_run (unat b mod 32) 0 1 0x80 0xBF bs"
  by (simp only: utf8_run.simps if_True if_False simp_thms cong: if_weak_cong)

lemma utf8_run_lead3:
  "needed = 0 \<Longrightarrow> \<not> unat b \<le> 0x7F \<Longrightarrow> \<not> (0xC2 \<le> unat b \<and> unat b \<le> 0xDF) \<Longrightarrow>
   0xE0 \<le> unat b \<and> unat b \<le> 0xEF \<Longrightarrow>
   utf8_run cp seen needed lo hi (b # bs) =
     utf8_run (unat b mod 16) 0 2
       (if unat b = 0xE0 then 0xA0 else 0x80) (if unat b = 0xED then 0x9F else 0xBF) bs"
  by (simp only: utf8_run.simps if_True if_False simp_thms cong: if_weak_cong)

lemma utf8_run_lead4:
  "needed = 0 \<Longrightarrow> \<not> unat b \<le> 0x7F \<Longrightarrow> \<not> (0xC2 \<le> unat b \<and> unat b \<le> 0xDF) \<Longrightarrow>
   \<not> (0xE0 \<le> unat b \<and> unat b \<le> 0xEF) \<Longrightarrow> 0xF0 \<le> unat b \<and> unat b \<le> 0xF4 \<Longrightarrow>
   utf8_run cp seen needed lo hi (b # bs) =
     utf8_run (unat b mod 8) 0 3
       (if unat b = 0xF0 then 0x90 else 0x80) (if unat b = 0xF4 then 0x8F else 0xBF) bs"
  by (simp only: utf8_run.simps if_True if_False simp_thms cong: if_weak_cong)

lemma utf8_run_bad_lead:
  "needed = 0 \<Longrightarrow> \<not> unat b \<le> 0x7F \<Longrightarrow> \<not> (0xC2 \<le> unat b \<and> unat b \<le> 0xDF) \<Longrightarrow>
   \<not> (0xE0 \<le> unat b \<and> unat b \<le> 0xEF) \<Longrightarrow> \<not> (0xF0 \<le> unat b \<and> unat b \<le> 0xF4) \<Longrightarrow>
   utf8_run cp seen needed lo hi (b # bs) = 0xFFFD # utf8_run 0 0 0 0x80 0xBF bs"
  by (simp only: utf8_run.simps if_True if_False simp_thms cong: if_weak_cong)

lemma utf8_run_broken:
  "needed \<noteq> 0 \<Longrightarrow> unat b < lo \<or> hi < unat b \<Longrightarrow>
   utf8_run cp seen needed lo hi (b # bs) = 0xFFFD # utf8_run 0 0 0 0x80 0xBF (b # bs)"
  by (subst utf8_run.simps) (simp only: if_True if_False simp_thms cong: if_weak_cong)

lemma utf8_run_cont:
  "needed \<noteq> 0 \<Longrightarrow> \<not> (unat b < lo \<or> hi < unat b) \<Longrightarrow> seen + 1 \<noteq> needed \<Longrightarrow>
   utf8_run cp seen needed lo hi (b # bs) =
     utf8_run (cp * 64 + unat b mod 64) (seen + 1) needed 0x80 0xBF bs"
  by (subst utf8_run.simps) (simp only: if_True if_False simp_thms cong: if_weak_cong)

lemma utf8_run_last:
  "needed \<noteq> 0 \<Longrightarrow> \<not> (unat b < lo \<or> hi < unat b) \<Longrightarrow> \<not> seen + 1 \<noteq> needed \<Longrightarrow>
   utf8_run cp seen needed lo hi (b # bs) =
     (cp * 64 + unat b mod 64) # utf8_run 0 0 0 0x80 0xBF bs"
  by (subst utf8_run.simps) (simp only: if_True if_False simp_thms cong: if_weak_cong)

lemma utf8_run_count:
  "decoderOk cp seen needed lo hi \<Longrightarrow>
   count_list (utf8_run cp seen needed lo hi bs) LF = count_list bs NEWLINE"
proof (induction cp seen needed lo hi bs rule: utf8_run.induct)
  case (1 cp seen needed lo hi)
  then show ?case by (simp add: utf8_run_Nil LF_def)
next
  case (2 cp seen needed lo hi b bs)
  let ?x = "unat b"
  have xb: "?x = 10 \<longleftrightarrow> b = NEWLINE" by (rule unat_NEWLINE)
  show ?case
  proof (cases "needed = 0")
    case idle: True
    consider (ascii) "?x \<le> 0x7F"
      | (l2) "\<not> ?x \<le> 0x7F" "0xC2 \<le> ?x \<and> ?x \<le> 0xDF"
      | (l3) "\<not> ?x \<le> 0x7F" "\<not> (0xC2 \<le> ?x \<and> ?x \<le> 0xDF)" "0xE0 \<le> ?x \<and> ?x \<le> 0xEF"
      | (l4) "\<not> ?x \<le> 0x7F" "\<not> (0xC2 \<le> ?x \<and> ?x \<le> 0xDF)" "\<not> (0xE0 \<le> ?x \<and> ?x \<le> 0xEF)"
             "0xF0 \<le> ?x \<and> ?x \<le> 0xF4"
      | (bad) "\<not> ?x \<le> 0x7F" "\<not> (0xC2 \<le> ?x \<and> ?x \<le> 0xDF)" "\<not> (0xE0 \<le> ?x \<and> ?x \<le> 0xEF)"
              "\<not> (0xF0 \<le> ?x \<and> ?x \<le> 0xF4)"
      by blast
    then show ?thesis
    proof cases
      case ascii
      have "count_list (utf8_run 0 0 0 0x80 0xBF bs) LF = count_list bs NEWLINE"
        using "2.IH"(1) [OF idle ascii decoderOk_idle] .
      then show ?thesis unfolding utf8_run_ascii_byte [OF idle ascii] using xb by (simp add: LF_def)
    next
      case l2
      have ok: "decoderOk (?x mod 32) 0 1 0x80 0xBF" using l2(2) by (rule decoderOk_lead2)
      have "b \<noteq> NEWLINE" using xb l2 by auto
      then show ?thesis unfolding utf8_run_lead2 [OF idle l2] using "2.IH"(2) [OF idle l2 ok] by simp
    next
      case l3
      have ok: "decoderOk (?x mod 16) 0 2 (if ?x = 0xE0 then 0xA0 else 0x80)
                  (if ?x = 0xED then 0x9F else 0xBF)"
        using l3(3) by (rule decoderOk_lead3)
      have "b \<noteq> NEWLINE" using xb l3 by auto
      then show ?thesis unfolding utf8_run_lead3 [OF idle l3] using "2.IH"(3) [OF idle l3 ok] by simp
    next
      case l4
      have ok: "decoderOk (?x mod 8) 0 3 (if ?x = 0xF0 then 0x90 else 0x80)
                  (if ?x = 0xF4 then 0x8F else 0xBF)"
        using l4(4) by (rule decoderOk_lead4)
      have "b \<noteq> NEWLINE" using xb l4 by auto
      then show ?thesis unfolding utf8_run_lead4 [OF idle l4] using "2.IH"(4) [OF idle l4 ok] by simp
    next
      case bad
      have "b \<noteq> NEWLINE" using xb bad by auto
      then show ?thesis
        unfolding utf8_run_bad_lead [OF idle bad]
        using "2.IH"(5) [OF idle bad decoderOk_idle] by (simp add: LF_def)
    qed
  next
    case busy: False
    show ?thesis
    proof (cases "?x < lo \<or> hi < ?x")
      case True
      show ?thesis
        unfolding utf8_run_broken [OF busy True]
        using "2.IH"(6) [OF busy True decoderOk_idle] by (simp add: LF_def)
    next
      case False
      then have r: "lo \<le> ?x" "?x \<le> hi" by simp_all
      note c = decoderOk_cont [OF "2.prems" busy r]
      have nb: "b \<noteq> NEWLINE" using c(3) xb by simp
      show ?thesis
      proof (cases "seen + 1 \<noteq> needed")
        case True
        show ?thesis
          unfolding utf8_run_cont [OF busy False True]
          using "2.IH"(7) [OF busy False True c(1) [OF True]] nb by simp
      next
        case nf: False
        then have e: "seen + 1 = needed" by simp
        show ?thesis
          unfolding utf8_run_last [OF busy False nf]
          using "2.IH"(8) [OF busy False nf decoderOk_idle] nb c(2) [OF e]
          by (simp add: LF_def)
      qed
    qed
  qed
qed

lemma utf8_run_ends:
  "decoderOk cp seen needed lo hi \<Longrightarrow> bs \<noteq> [] \<Longrightarrow> last bs = NEWLINE \<Longrightarrow>
   utf8_run cp seen needed lo hi bs \<noteq> [] \<and> last (utf8_run cp seen needed lo hi bs) = LF"
proof (induction cp seen needed lo hi bs rule: utf8_run.induct)
  case (1 cp seen needed lo hi)
  then show ?case by simp
next
  case (2 cp seen needed lo hi b bs)
  let ?x = "unat b"
  have single: "?x = 10" if "bs = []"
    using that "2.prems"(3) unat_NEWLINE by simp
  have tail: "bs \<noteq> [] \<Longrightarrow> last bs = NEWLINE" using "2.prems"(3) by simp
  have idle_end: "utf8_run 0 0 0 0x80 0xBF [] = []" by (simp add: utf8_run_Nil)
  show ?case
  proof (cases "needed = 0")
    case idle: True
    consider (ascii) "?x \<le> 0x7F"
      | (l2) "\<not> ?x \<le> 0x7F" "0xC2 \<le> ?x \<and> ?x \<le> 0xDF"
      | (l3) "\<not> ?x \<le> 0x7F" "\<not> (0xC2 \<le> ?x \<and> ?x \<le> 0xDF)" "0xE0 \<le> ?x \<and> ?x \<le> 0xEF"
      | (l4) "\<not> ?x \<le> 0x7F" "\<not> (0xC2 \<le> ?x \<and> ?x \<le> 0xDF)" "\<not> (0xE0 \<le> ?x \<and> ?x \<le> 0xEF)"
             "0xF0 \<le> ?x \<and> ?x \<le> 0xF4"
      | (bad) "\<not> ?x \<le> 0x7F" "\<not> (0xC2 \<le> ?x \<and> ?x \<le> 0xDF)" "\<not> (0xE0 \<le> ?x \<and> ?x \<le> 0xEF)"
              "\<not> (0xF0 \<le> ?x \<and> ?x \<le> 0xF4)"
      by blast
    then show ?thesis
    proof cases
      case ascii
      show ?thesis
      proof (cases "bs = []")
        case True
        then show ?thesis
          unfolding utf8_run_ascii_byte [OF idle ascii] using single idle_end by (simp add: LF_def)
      next
        case False
        then show ?thesis
          unfolding utf8_run_ascii_byte [OF idle ascii]
          using "2.IH"(1) [OF idle ascii decoderOk_idle False tail] by simp
      qed
    next
      case l2
      then have ne: "bs \<noteq> []" using single by auto
      have ok: "decoderOk (?x mod 32) 0 1 0x80 0xBF" using l2(2) by (rule decoderOk_lead2)
      show ?thesis
        unfolding utf8_run_lead2 [OF idle l2] using "2.IH"(2) [OF idle l2 ok ne tail] ne by simp
    next
      case l3
      then have ne: "bs \<noteq> []" using single by auto
      have ok: "decoderOk (?x mod 16) 0 2 (if ?x = 0xE0 then 0xA0 else 0x80)
                  (if ?x = 0xED then 0x9F else 0xBF)"
        using l3(3) by (rule decoderOk_lead3)
      show ?thesis
        unfolding utf8_run_lead3 [OF idle l3] using "2.IH"(3) [OF idle l3 ok ne tail] ne by simp
    next
      case l4
      then have ne: "bs \<noteq> []" using single by auto
      have ok: "decoderOk (?x mod 8) 0 3 (if ?x = 0xF0 then 0x90 else 0x80)
                  (if ?x = 0xF4 then 0x8F else 0xBF)"
        using l4(4) by (rule decoderOk_lead4)
      show ?thesis
        unfolding utf8_run_lead4 [OF idle l4] using "2.IH"(4) [OF idle l4 ok ne tail] ne by simp
    next
      case bad
      then have ne: "bs \<noteq> []" using single by auto
      show ?thesis
        unfolding utf8_run_bad_lead [OF idle bad]
        using "2.IH"(5) [OF idle bad decoderOk_idle ne tail] ne by simp
    qed
  next
    case busy: False
    show ?thesis
    proof (cases "?x < lo \<or> hi < ?x")
      case True
      show ?thesis
        unfolding utf8_run_broken [OF busy True]
        using "2.IH"(6) [OF busy True decoderOk_idle "2.prems"(2,3)] by simp
    next
      case False
      then have r: "lo \<le> ?x" "?x \<le> hi" by simp_all
      note c = decoderOk_cont [OF "2.prems"(1) busy r]
      have ne: "bs \<noteq> []" using single c(3) by auto
      show ?thesis
      proof (cases "seen + 1 \<noteq> needed")
        case True
        show ?thesis
          unfolding utf8_run_cont [OF busy False True]
          using "2.IH"(7) [OF busy False True c(1) [OF True] ne tail] ne by simp
      next
        case nf: False
        show ?thesis
          unfolding utf8_run_last [OF busy False nf]
          using "2.IH"(8) [OF busy False nf decoderOk_idle ne tail] ne by simp
      qed
    qed
  qed
qed

lemma utf16_units_count: "count_list (concat (map utf16_units cs)) LF = count_list cs LF"
  by (induction cs) (auto simp: utf16_units_def LF_def)

lemma utf16_units_ends:
  "cs \<noteq> [] \<Longrightarrow> last cs = LF \<Longrightarrow>
   concat (map utf16_units cs) \<noteq> [] \<and> last (concat (map utf16_units cs)) = LF"
proof (induction cs rule: rev_induct)
  case Nil
  then show ?case by simp
next
  case (snoc c cs)
  then show ?case by (simp add: utf16_units_def LF_def)
qed

lemma strip_bom_count: "count_list (strip_bom cs) LF = count_list cs LF"
  by (cases cs) (auto simp: LF_def)

lemma strip_bom_ends:
  "cs \<noteq> [] \<Longrightarrow> last cs = LF \<Longrightarrow> strip_bom cs \<noteq> [] \<and> last (strip_bom cs) = LF"
  by (cases cs) (auto simp: LF_def split: if_splits)

lemma decode_count: "count_list (decode bs) LF = count_list bs NEWLINE"
  by (simp add: decode_def utf16_units_count strip_bom_count utf8_run_count decoderOk_idle)

lemma decode_ends: "bs \<noteq> [] \<Longrightarrow> last bs = NEWLINE \<Longrightarrow> endsWithNewline (decode bs)"
  unfolding endsWithNewline_def decode_def
  using utf8_run_ends [OF decoderOk_idle, of bs] strip_bom_ends utf16_units_ends by blast

lemma length_splitNewline: "length (splitNewline s) = count_list s LF + 1"
  by (induction s) (auto split: list.splits)

section \<open>Ascending line numbers\<close>

lemma execLoop_appends:
  "\<exists>new. execLoop m line lineNo li results = results @ new \<and> (\<forall>r\<in>set new. lineNumber r = lineNo)"
proof (induction m line lineNo li results rule: execLoop.induct)
  case (1 m line lineNo li results)
  show ?case
  proof (cases "regexExec m line li")
    case None
    then show ?thesis by (simp add: execLoop.simps [of m line lineNo li results])
  next
    case (Some p)
    obtain index len where p: "p = (index, len)" by (cases p)
    define match0 where "match0 = sliceOf line index (index + len)"
    define results' where
      "results' = results @ [\<lparr>lineNumber = lineNo, content = match0, matches = None\<rparr>]"
    have e: "execLoop m line lineNo li results =
             execLoop m line lineNo (if length match0 = 0 then index + len + 1 else index + len) results'"
      using Some p by (simp add: execLoop.simps [of m line lineNo li results] match0_def results'_def Let_def)
    obtain new where new: "execLoop m line lineNo
             (if length match0 = 0 then index + len + 1 else index + len) results' = results' @ new"
        "\<forall>r\<in>set new. lineNumber r = lineNo"
      using "1.IH" [OF Some p [symmetric] match0_def results'_def] by blast
    have "execLoop m line lineNo li results =
          results @ (\<lparr>lineNumber = lineNo, content = match0, matches = None\<rparr> # new)"
      unfolding e new(1) by (simp add: results'_def)
    moreover have "\<forall>r\<in>set (\<lparr>lineNumber = lineNo, content = match0, matches = None\<rparr> # new).
                     lineNumber r = lineNo"
      using new(2) by simp
    ultimately show ?thesis by blast
  qed
qed

lemma lineResults_appends:
  "\<exists>new. lineResults options line i results = results @ new \<and> (\<forall>r\<in>set new. lineNumber r = i + 1)"
proof (cases "onlyMatching options \<and> \<not> invertMatch options")
  case True
  then show ?thesis
    using execLoop_appends [of "regex options" line "i + 1" 0 results] by (simp add: lineResults_def)
next
  case False
  then show ?thesis by (auto simp: lineResults_def)
qed

lemma ascendingUpTo_mono: "ascendingUpTo n rs \<Longrightarrow> n \<le> n' \<Longrightarrow> ascendingUpTo n' rs"
  by (auto simp: ascendingUpTo_def)

lemma ascendingUpTo_lineResults:
  assumes "ascendingUpTo i results"
  shows "ascendingUpTo (i + 1) (lineResults options line i results)"
proof -
  obtain new where new: "lineResults options line i results = results @ new"
      "\<forall>r\<in>set new. lineNumber r = i + 1"
    using lineResults_appends by blast
  have "sorted (map lineNumber new)"
    using new(2) by (induction new) auto
  then show ?thesis
    using assms new(2) unfolding new(1) ascendingUpTo_def by (auto simp: sorted_append)
qed

lemma regexLoop_ascending:
  "ascendingUpTo i results \<Longrightarrow>
   ascendingUpTo (i + length lines) (regexLoop options lines i mc results)"
proof (induction lines arbitrary: i mc results)
  case Nil
  then show ?case by simp
next
  case (Cons line rest)
  note a1 = ascendingUpTo_lineResults [OF Cons.prems, of options line]
  have skip: "ascendingUpTo (i + length (line # rest)) (regexLoop options rest (i + 1) mc results)"
    using Cons.IH [OF ascendingUpTo_mono [OF Cons.prems, of "i + 1"], of mc] by simp
  have stop: "ascendingUpTo (i + length (line # rest)) (lineResults options line i results)"
    using ascendingUpTo_mono [OF a1, of "i + length (line # rest)"] by simp
  have go: "ascendingUpTo (i + length (line # rest))
              (regexLoop options rest (i + 1) (mc + 1) (lineResults options line i results))"
    using Cons.IH [OF a1, of "mc + 1"] by simp
  show ?case
    unfolding regexLoop_unfold using skip stop go by (simp only: if_split) blast
qed

lemma grepBufferRegex_ascending:
  "ascendingUpTo
     (length (if endsWithNewline (decode buffer) then butlast (splitNewline (decode buffer))
              else splitNewline (decode buffer)))
     (grepBufferRegex buffer options)"
  using regexLoop_ascending [of 0 "[]" _ options 0]
  by (simp add: grepBufferRegex_def Let_def ascendingUpTo_def)

lemma grepBufferRegex_complete:
  assumes "buffer \<noteq> []" and "last buffer = NEWLINE"
  shows "ascendingUpTo (count_list buffer NEWLINE) (grepBufferRegex buffer options)"
proof -
  have "length (if endsWithNewline (decode buffer) then butlast (splitNewline (decode buffer))
                else splitNewline (decode buffer)) = count_list buffer NEWLINE"
    using decode_ends [OF assms] by (simp add: length_splitNewline decode_count)
  then show ?thesis using grepBufferRegex_ascending [of buffer options] by simp
qed

lemma grepBufferLiteral_ascending:
  "ascendingUpTo (numLines buffer) (grepBufferLiteral buffer options)"
proof (cases "invertMatch options")
  case True
  have "sorted (map lineNumber (invertCollect buffer options
          (invertMark buffer (positions buffer options) 0 1 0 {}) 0 1 0 []))"
    by (rule invertCollect_sorted) simp_all
  moreover have "\<forall>r\<in>set (invertCollect buffer options
          (invertMark buffer (positions buffer options) 0 1 0 {}) 0 1 0 []).
          lineNumber r \<le> numLines buffer"
    by (rule invertCollect_bound [OF atLine_start]) simp
  ultimately show ?thesis
    unfolding grepBufferLiteral_invert [OF True] ascendingUpTo_def by simp
next
  case False
  define lms where
    "lms = literalLoop buffer options (length (encode (pattern options))) (positions buffer options) 0 1 []"
  have "keysOk [] 1" by (simp add: keysOk_def)
  then obtain c where "keysOk lms c" unfolding lms_def using literalLoop_keysOk by blast
  then have m: "map lineNumber (materialize options lms) = map fst lms"
    using lineNumber_materialize by (simp add: keysOk_def)
  have "fst ` set lms \<subseteq> fst ` set ([] :: lineMatches) \<union> lineOf buffer ` set (positions buffer options)"
    unfolding lms_def
    by (rule literalLoop_keys_subset [OF positions_sorted]) (simp_all add: lineOf_def)
  then have "set (map fst lms) \<subseteq> lineOf buffer ` set (positions buffer options)" by simp
  moreover have "k \<le> numLines buffer" if k: "k \<in> lineOf buffer ` set (positions buffer options)" for k
  proof -
    obtain p where "p \<in> set (positions buffer options)" "k = lineOf buffer p" using k by auto
    then show ?thesis using lineOf_le_numLines [OF positions_bound] by simp
  qed
  ultimately have "\<forall>k\<in>set (map fst lms). k \<le> numLines buffer" by blast
  then have "\<forall>k\<in>set (map lineNumber (materialize options lms)). k \<le> numLines buffer"
    unfolding m .
  then have "\<forall>r\<in>set (materialize options lms). lineNumber r \<le> numLines buffer" by simp
  moreover have "sorted (map lineNumber (materialize options lms))"
    unfolding lms_def by (rule sorted_forward)
  ultimately show ?thesis
    unfolding grepBufferLiteral_forward [OF False] ascendingUpTo_def lms_def by simp
qed

lemma numLines_complete: "buffer \<noteq> [] \<Longrightarrow> last buffer = NEWLINE \<Longrightarrow> numLines buffer = count_list buffer NEWLINE"
  by (simp add: numLines_def)

lemma scanBuffer_sorted: "sorted (map lineNumber (scanBuffer buffer options))"
  using grepBufferLiteral_ascending [of buffer options] grepBufferRegex_ascending [of buffer options]
  by (simp add: scanBuffer_def ascendingUpTo_def)

lemma scanBuffer_complete:
  "buffer \<noteq> [] \<Longrightarrow> last buffer = NEWLINE \<Longrightarrow>
   ascendingUpTo (count_list buffer NEWLINE) (scanBuffer buffer options)"
  using grepBufferLiteral_ascending [of buffer options] grepBufferRegex_complete [of buffer options]
  by (simp add: scanBuffer_def numLines_complete)

lemma deliver_prefix:
  "\<exists>j. snd (snd (deliver options lo rs mc calls)) = calls @ map (shifted lo) (take j rs)"
proof (induction rs arbitrary: mc calls)
  case Nil
  then show ?case by simp
next
  case (Cons r rs)
  show ?case
  proof (cases "maxCount options > 0 \<and> mc + 1 \<ge> maxCount options")
    case True
    then have "snd (snd (deliver options lo (r # rs) mc calls)) =
               calls @ map (shifted lo) (take 1 (r # rs))"
      by (simp add: Let_def)
    then show ?thesis by blast
  next
    case False
    obtain j where "snd (snd (deliver options lo rs (mc + 1) (calls @ [shifted lo r]))) =
                    (calls @ [shifted lo r]) @ map (shifted lo) (take j rs)"
      using Cons.IH by blast
    then have "snd (snd (deliver options lo (r # rs) mc calls)) =
               calls @ map (shifted lo) (take (Suc j) (r # rs))"
      using False by (auto simp: Let_def)
    then show ?thesis by blast
  qed
qed

lemma sorted_shifted:
  "sorted (map lineNumber rs) \<Longrightarrow> sorted (map lineNumber (map (shifted lo) rs))"
  by (induction rs) (auto simp: shifted_def)

lemma ascendingUpTo_deliver:
  assumes "ascendingUpTo lo calls" and "ascendingUpTo n rs"
  shows "ascendingUpTo (lo + n) (snd (snd (deliver options lo rs mc calls)))"
proof -
  obtain j where j: "snd (snd (deliver options lo rs mc calls)) = calls @ map (shifted lo) (take j rs)"
    using deliver_prefix by blast
  have "sorted (map lineNumber (take j rs))"
    using assms(2) by (simp add: ascendingUpTo_def sorted_wrt_take flip: take_map)
  then have s: "sorted (map lineNumber (map (shifted lo) (take j rs)))" by (rule sorted_shifted)
  have b: "lo \<le> lineNumber r \<and> lineNumber r \<le> lo + n" if rin: "r \<in> set (map (shifted lo) (take j rs))" for r
  proof -
    obtain r' where r': "r' \<in> set (take j rs)" "r = shifted lo r'" using rin by auto
    then have "r' \<in> set rs" by (meson in_set_takeD)
    then have "lineNumber r' \<le> n" using assms(2) by (simp add: ascendingUpTo_def)
    then show ?thesis using r'(2) by (simp add: shifted_def)
  qed
  have c: "sorted (map lineNumber calls)" "\<And>r. r \<in> set calls \<Longrightarrow> lineNumber r \<le> lo"
    using assms(1) by (simp_all add: ascendingUpTo_def)
  have "x \<le> y" if x: "x \<in> set (map lineNumber calls)"
    and y: "y \<in> set (map lineNumber (map (shifted lo) (take j rs)))" for x y
  proof -
    obtain r where r: "r \<in> set calls" "x = lineNumber r" using x by auto
    obtain q where q: "q \<in> set (map (shifted lo) (take j rs))" "y = lineNumber q" using y by auto
    show ?thesis using c(2) [OF r(1)] b [OF q(1)] r(2) q(2) by simp
  qed
  then have "sorted (map lineNumber calls @ map lineNumber (map (shifted lo) (take j rs)))"
    unfolding sorted_append using s c(1) by blast
  moreover have "lineNumber r \<le> lo + n" if r: "r \<in> set (calls @ map (shifted lo) (take j rs))" for r
  proof (cases "r \<in> set calls")
    case True
    then show ?thesis using c(2) [OF True] by simp
  next
    case False
    then have "r \<in> set (map (shifted lo) (take j rs))" using r by simp
    then show ?thesis using b by blast
  qed
  ultimately show ?thesis unfolding j ascendingUpTo_def by simp
qed

lemma complete_region:
  assumes "lastIndexOf xs NEWLINE = Some n"
  shows "sliceOf xs 0 (n + 1) \<noteq> []" and "last (sliceOf xs 0 (n + 1)) = NEWLINE"
proof -
  note li = lastIndexOf_Some [OF assms]
  have "take (Suc n) xs = take n xs @ [xs ! n]"
    using li(1) by (simp add: take_Suc_conv_app_nth)
  then show "sliceOf xs 0 (n + 1) \<noteq> []" and "last (sliceOf xs 0 (n + 1)) = NEWLINE"
    using li(2) by (simp_all add: sliceOf_def)
qed

lemma streamLoop_sorted:
  "ascendingUpTo lo calls \<Longrightarrow>
   sorted (map lineNumber (onResultCalls (streamLoop options cs buffer lo mc calls scans)))"
proof (induction cs arbitrary: buffer lo mc calls scans)
  case Nil
  show ?case
  proof (cases "buffer = []")
    case True
    then show ?thesis using Nil by (simp add: ascendingUpTo_def)
  next
    case False
    obtain stopped mc' calls' where
      d: "deliver options lo (scanBuffer buffer options) mc calls = (stopped, mc', calls')"
      by (cases "deliver options lo (scanBuffer buffer options) mc calls") auto
    have "\<exists>n. ascendingUpTo n (scanBuffer buffer options)"
      using scanBuffer_sorted [of buffer options]
      unfolding ascendingUpTo_def
      by (intro exI [of _ "Max (insert 0 (lineNumber ` set (scanBuffer buffer options)))"]) simp
    then obtain n where "ascendingUpTo n (scanBuffer buffer options)" by blast
    then have "ascendingUpTo (lo + n) calls'"
      using ascendingUpTo_deliver [OF Nil, of n "scanBuffer buffer options" options mc] d by simp
    then show ?thesis
      unfolding streamLoop_Nil(2) [OF False d] by (simp add: ascendingUpTo_def)
  qed
next
  case (Cons c cs)
  show ?case
  proof (cases "lastIndexOf (buffer @ c) NEWLINE")
    case None
    then show ?thesis using Cons.IH [OF Cons.prems] by (simp only: streamLoop_Cons_None)
  next
    case (Some n)
    define complete where "complete = sliceOf (buffer @ c) 0 (n + 1)"
    have cl: "complete \<noteq> []" "last complete = NEWLINE"
      unfolding complete_def using complete_region [OF Some] by blast+
    obtain stopped mc' calls' where
      d: "deliver options lo (scanBuffer complete options) mc calls = (stopped, mc', calls')"
      by (cases "deliver options lo (scanBuffer complete options) mc calls") auto
    have a: "ascendingUpTo (lo + count_list complete NEWLINE) calls'"
      using ascendingUpTo_deliver [OF Cons.prems scanBuffer_complete [OF cl], of options options mc] d
      by simp
    show ?thesis
    proof (cases stopped)
      case True
      then show ?thesis
        unfolding streamLoop_Cons_Some [OF Some complete_def d] using a by (simp add: ascendingUpTo_def)
    next
      case False
      then show ?thesis
        unfolding streamLoop_Cons_Some [OF Some complete_def d]
        using Cons.IH [OF a] by (simp add: countNewlines_whole)
    qed
  qed
qed

text \<open>
  Claim C9. For every input and every option combination, the results of the literal
  scanner, the results of the regex scanner and the results that the stream driver passes
  to \<open>onResult\<close> are in non-decreasing order of line number.
\<close>

theorem ascending_lineNumbers:
  "sorted (map lineNumber (grepBufferLiteral buffer options)) \<and>
   sorted (map lineNumber (grepBufferRegex buffer options)) \<and>
   sorted (map lineNumber (onResultCalls (grepStream chunks options)))"
proof (intro conjI)
  show "sorted (map lineNumber (grepBufferLiteral buffer options))"
    using grepBufferLiteral_ascending [of buffer options] by (simp add: ascendingUpTo_def)
  show "sorted (map lineNumber (grepBufferRegex buffer options))"
    using grepBufferRegex_ascending [of buffer options] by (simp add: ascendingUpTo_def)
  show "sorted (map lineNumber (onResultCalls (grepStream chunks options)))"
    unfolding grepStream_def by (rule streamLoop_sorted) (simp add: ascendingUpTo_def)
qed

end
